theory Spec2Isabelle
  imports Complex_Main "HOL-Library.Log_Nat"
begin

section \<open>TodoFusion: task entity, persistence and service layer\<close>

text \<open>
  A shallow embedding of \<^verbatim>\<open>Task.js\<close> (the \<^verbatim>\<open>Task\<close> class and \<^verbatim>\<open>TaskListView\<close>),
  \<^verbatim>\<open>TaskService.js\<close> and the \<^verbatim>\<open>DB\<close> object (localStorage manager).

  JavaScript objects are modelled with the types the application gives their fields: a
  task is a record of its fourteen fields, \<^verbatim>\<open>null\<close> is \<open>None\<close>. Strings are
  \<open>char list\<close>; \<^verbatim>\<open>trim\<close> and \<^verbatim>\<open>toLowerCase\<close> are modelled on ASCII.
  The wall clock, \<^verbatim>\<open>Date\<close> parsing, the local calendar and the random identifier
  are inputs of the model (record \<open>clock\<close>); one call of a function reads one instant.
\<close>

subsection \<open>Strings\<close>

definition lower_char :: "char \<Rightarrow> char" where
  "lower_char c =
     (let n = (of_char c :: nat) in if 65 \<le> n \<and> n \<le> 90 then char_of (n + 32) else c)"

definition toLowerCase :: "string \<Rightarrow> string" where
  "toLowerCase s = map lower_char s"

definition is_space :: "char \<Rightarrow> bool" where
  "is_space c = ((of_char c :: nat) \<in> {9, 10, 11, 12, 13, 32})"

definition trim :: "string \<Rightarrow> string" where
  "trim s = rev (dropWhile is_space (rev (dropWhile is_space s)))"

fun starts_with :: "string \<Rightarrow> string \<Rightarrow> bool" where
  "starts_with s [] = True"
| "starts_with [] (p # ps) = False"
| "starts_with (c # cs) (p # ps) = (c = p \<and> starts_with cs ps)"

text \<open>\<^verbatim>\<open>s.includes(p)\<close>: \<open>p\<close> occurs in \<open>s\<close> as a contiguous substring.\<close>

fun includes_str :: "string \<Rightarrow> string \<Rightarrow> bool" where
  "includes_str [] p = (p = [])"
| "includes_str (c # cs) p = (starts_with (c # cs) p \<or> includes_str cs p)"

subsection \<open>The clock\<close>

record clock =
  nowMs :: int
  nowISO :: string
  parseDate :: "string \<Rightarrow> int option"
  localYMD :: "int \<Rightarrow> int \<times> int \<times> int"
  freshId :: string
  stringToNumber :: "string \<Rightarrow> int option"

text \<open>
  \<open>nowMs\<close> is \<^verbatim>\<open>new Date().getTime()\<close>, \<open>nowISO\<close> is \<^verbatim>\<open>new Date().toISOString()\<close>,
  \<open>parseDate s\<close> is \<^verbatim>\<open>new Date(s).getTime()\<close> with \<open>None\<close> for \<^verbatim>\<open>NaN\<close>, and
  \<open>localYMD t\<close> is \<^verbatim>\<open>(getFullYear(), getMonth(), getDate())\<close> of the date with time
  value \<open>t\<close>. \<open>freshId\<close> is the identifier \<^verbatim>\<open>DB.generateId()\<close> returns, built from
  \<^verbatim>\<open>Date.now()\<close> and \<^verbatim>\<open>Math.random()\<close>. \<open>stringToNumber s\<close> is the number a string is
  converted to when it is compared with a value that is not a string (\<open>None\<close> for
  \<^verbatim>\<open>NaN\<close>).
\<close>

subsection \<open>Task objects\<close>

record task =
  task_id :: "string option"
  title :: string
  description :: string
  completed :: bool
  priority :: string
  dueDate :: "string option"
  tags :: "string list"
  createdAt :: string
  updatedAt :: string
  completedAt :: "string option"
  estimatedTime :: "int option"
  actualTime :: "int option"
  task_notes :: string
  links :: "string list"

text \<open>
  A partial task object: the argument of the \<^verbatim>\<open>Task\<close> constructor and the
  \<^verbatim>\<open>updates\<close> argument of \<^verbatim>\<open>updateTask\<close>. \<open>None\<close> is an absent property; for the
  nullable fields \<open>Some None\<close> is a property that is present with value \<^verbatim>\<open>null\<close>.
\<close>

record task_partial =
  p_id :: "string option option"
  p_title :: "string option"
  p_description :: "string option"
  p_completed :: "bool option"
  p_priority :: "string option"
  p_dueDate :: "string option option"
  p_tags :: "string list option"
  p_createdAt :: "string option"
  p_updatedAt :: "string option"
  p_completedAt :: "string option option"
  p_estimatedTime :: "int option option"
  p_actualTime :: "int option option"
  p_notes :: "string option"
  p_links :: "string list option"

definition no_fields :: task_partial where
  "no_fields = \<lparr>p_id = None, p_title = None, p_description = None, p_completed = None,
     p_priority = None, p_dueDate = None, p_tags = None, p_createdAt = None,
     p_updatedAt = None, p_completedAt = None, p_estimatedTime = None,
     p_actualTime = None, p_notes = None, p_links = None\<rparr>"

text \<open>\<^verbatim>\<open>x || d\<close> on the three kinds of field: absent, null, empty string and 0 are falsy.\<close>

definition or_str :: "string option \<Rightarrow> string \<Rightarrow> string" where
  "or_str v d = (case v of None \<Rightarrow> d | Some s \<Rightarrow> if s = [] then d else s)"

definition or_null_str :: "string option option \<Rightarrow> string option" where
  "or_null_str v =
     (case v of None \<Rightarrow> None | Some None \<Rightarrow> None
      | Some (Some s) \<Rightarrow> if s = [] then None else Some s)"

definition or_null_num :: "int option option \<Rightarrow> int option" where
  "or_null_num v =
     (case v of None \<Rightarrow> None | Some None \<Rightarrow> None
      | Some (Some n) \<Rightarrow> if n = 0 then None else Some n)"

definition Task :: "clock \<Rightarrow> task_partial \<Rightarrow> task" where
  "Task clk d =
     \<lparr>task_id = or_null_str (p_id d),
      title = or_str (p_title d) [],
      description = or_str (p_description d) [],
      completed = (case p_completed d of None \<Rightarrow> False | Some b \<Rightarrow> b),
      priority = or_str (p_priority d) ''medium'',
      dueDate = or_null_str (p_dueDate d),
      tags = (case p_tags d of None \<Rightarrow> [] | Some ts \<Rightarrow> ts),
      createdAt = or_str (p_createdAt d) (nowISO clk),
      updatedAt = or_str (p_updatedAt d) (nowISO clk),
      completedAt = or_null_str (p_completedAt d),
      estimatedTime = or_null_num (p_estimatedTime d),
      actualTime = or_null_num (p_actualTime d),
      task_notes = or_str (p_notes d) [],
      links = (case p_links d of None \<Rightarrow> [] | Some ls \<Rightarrow> ls)\<rparr>"

text \<open>A stored object seen as constructor data: every property is present.\<close>

definition as_data :: "task \<Rightarrow> task_partial" where
  "as_data t =
     \<lparr>p_id = Some (task_id t), p_title = Some (title t),
      p_description = Some (description t), p_completed = Some (completed t),
      p_priority = Some (priority t), p_dueDate = Some (dueDate t),
      p_tags = Some (tags t), p_createdAt = Some (createdAt t),
      p_updatedAt = Some (updatedAt t), p_completedAt = Some (completedAt t),
      p_estimatedTime = Some (estimatedTime t), p_actualTime = Some (actualTime t),
      p_notes = Some (task_notes t), p_links = Some (links t)\<rparr>"

definition fromJSON :: "clock \<Rightarrow> task \<Rightarrow> task" where
  "fromJSON clk r = Task clk (as_data r)"

definition toJSON :: "task \<Rightarrow> task" where
  "toJSON t = t"

record validation =
  isValid :: bool
  errors :: "string list"

definition validate :: "clock \<Rightarrow> task \<Rightarrow> validation" where
  "validate clk t =
     (let e1 = (if title t = [] \<or> length (trim (title t)) = 0
                then [''Title is required''] else []);
          e2 = (if title t \<noteq> [] \<and> length (title t) > 200
                then [''Title must be less than 200 characters''] else []);
          e3 = (if priority t \<noteq> [] \<and> priority t \<notin> set [''low'', ''medium'', ''high'', ''urgent'']
                then [''Invalid priority value''] else []);
          e4 = (case dueDate t of None \<Rightarrow> []
                | Some s \<Rightarrow> if s \<noteq> [] \<and> parseDate clk s = None
                            then [''Invalid due date''] else []);
          es = e1 @ e2 @ e3 @ e4
      in \<lparr>isValid = (length es = 0), errors = es\<rparr>)"

definition isOverdue :: "clock \<Rightarrow> task \<Rightarrow> bool" where
  "isOverdue clk t =
     (case dueDate t of None \<Rightarrow> False
      | Some s \<Rightarrow> if s = [] \<or> completed t then False
                  else (case parseDate clk s of None \<Rightarrow> False | Some due \<Rightarrow> due < nowMs clk))"

definition isDueToday :: "clock \<Rightarrow> task \<Rightarrow> bool" where
  "isDueToday clk t =
     (case dueDate t of None \<Rightarrow> False
      | Some s \<Rightarrow> if s = [] then False
                  else (case parseDate clk s of None \<Rightarrow> False
                        | Some due \<Rightarrow>
                            (case (localYMD clk due, localYMD clk (nowMs clk)) of
                               ((y1, m1, d1), (y2, m2, d2)) \<Rightarrow> d1 = d2 \<and> m1 = m2 \<and> y1 = y2)))"

definition oneWeek :: int where
  "oneWeek = 7 * 24 * 60 * 60 * 1000"

definition isDueThisWeek :: "clock \<Rightarrow> task \<Rightarrow> bool" where
  "isDueThisWeek clk t =
     (case dueDate t of None \<Rightarrow> False
      | Some s \<Rightarrow> if s = [] then False
                  else (case parseDate clk s of None \<Rightarrow> False
                        | Some due \<Rightarrow> due - nowMs clk \<le> oneWeek \<and> due \<ge> nowMs clk))"

definition toggleComplete :: "clock \<Rightarrow> task \<Rightarrow> task" where
  "toggleComplete clk t =
     (let c = \<not> completed t
      in t\<lparr>completed := c,
            completedAt := (if c then Some (nowISO clk) else None),
            updatedAt := nowISO clk\<rparr>)"

definition addTag :: "clock \<Rightarrow> string \<Rightarrow> task \<Rightarrow> task" where
  "addTag clk tag t =
     (let trimmedTag = toLowerCase (trim tag)
      in if trimmedTag \<noteq> [] \<and> trimmedTag \<notin> set (tags t)
         then t\<lparr>tags := tags t @ [trimmedTag], updatedAt := nowISO clk\<rparr>
         else t)"

definition removeTag :: "clock \<Rightarrow> string \<Rightarrow> task \<Rightarrow> task" where
  "removeTag clk tag t =
     t\<lparr>tags := filter (\<lambda>x. x \<noteq> tag) (tags t), updatedAt := nowISO clk\<rparr>"

subsection \<open>The DB object: localStorage\<close>

text \<open>
  What \<^verbatim>\<open>localStorage.getItem\<close> returns for a key: nothing, a text that
  \<^verbatim>\<open>JSON.parse\<close> rejects, or the JSON text of a value. \<^verbatim>\<open>JSON.parse\<close> of
  \<^verbatim>\<open>JSON.stringify v\<close> is \<open>v\<close> again for the values stored here (strings, booleans,
  integers, \<^verbatim>\<open>null\<close>, arrays and plain objects of them), so a stored text is
  represented by the value it denotes. \<^verbatim>\<open>setItem\<close> throws when the quota is exceeded.
\<close>

datatype 'a item = Absent | Corrupt | Stored 'a

type_synonym settings = "(string \<times> string) list"

record storage =
  tasks_item :: "task list item"
  settings_item :: "settings item"
  quota_exceeded :: bool

definition DB_getTasks :: "storage \<Rightarrow> task list" where
  "DB_getTasks st = (case tasks_item st of Stored ts \<Rightarrow> ts | Absent \<Rightarrow> [] | Corrupt \<Rightarrow> [])"

definition DB_saveTasks :: "task list \<Rightarrow> storage \<Rightarrow> bool \<times> storage" where
  "DB_saveTasks ts st =
     (if quota_exceeded st then (False, st) else (True, st\<lparr>tasks_item := Stored ts\<rparr>))"

definition DB_getSettings :: "storage \<Rightarrow> settings" where
  "DB_getSettings st =
     (case settings_item st of Stored s \<Rightarrow> s | Absent \<Rightarrow> [] | Corrupt \<Rightarrow> [])"

definition DB_saveSettings :: "settings \<Rightarrow> storage \<Rightarrow> bool \<times> storage" where
  "DB_saveSettings s st =
     (if quota_exceeded st then (False, st) else (True, st\<lparr>settings_item := Stored s\<rparr>))"

definition DB_addTask :: "clock \<Rightarrow> task \<Rightarrow> storage \<Rightarrow> task \<times> storage" where
  "DB_addTask clk taskData st =
     (let tasks0 = DB_getTasks st;
          newTask = taskData\<lparr>
            task_id := Some (case task_id taskData of None \<Rightarrow> freshId clk
                             | Some i \<Rightarrow> if i = [] then freshId clk else i),
            createdAt := (if createdAt taskData = [] then nowISO clk else createdAt taskData),
            updatedAt := nowISO clk\<rparr>
      in (newTask, snd (DB_saveTasks (tasks0 @ [newTask]) st)))"

fun findIndex :: "('a \<Rightarrow> bool) \<Rightarrow> 'a list \<Rightarrow> nat option" where
  "findIndex P [] = None"
| "findIndex P (x # xs) =
     (if P x then Some 0 else (case findIndex P xs of None \<Rightarrow> None | Some i \<Rightarrow> Some (Suc i)))"

text \<open>The object spread \<^verbatim>\<open>{...t, ...updates}\<close>: a property of \<open>updates\<close> wins.\<close>

definition spread :: "task \<Rightarrow> task_partial \<Rightarrow> task" where
  "spread t u =
     \<lparr>task_id = (case p_id u of None \<Rightarrow> task_id t | Some v \<Rightarrow> v),
      title = (case p_title u of None \<Rightarrow> title t | Some v \<Rightarrow> v),
      description = (case p_description u of None \<Rightarrow> description t | Some v \<Rightarrow> v),
      completed = (case p_completed u of None \<Rightarrow> completed t | Some v \<Rightarrow> v),
      priority = (case p_priority u of None \<Rightarrow> priority t | Some v \<Rightarrow> v),
      dueDate = (case p_dueDate u of None \<Rightarrow> dueDate t | Some v \<Rightarrow> v),
      tags = (case p_tags u of None \<Rightarrow> tags t | Some v \<Rightarrow> v),
      createdAt = (case p_createdAt u of None \<Rightarrow> createdAt t | Some v \<Rightarrow> v),
      updatedAt = (case p_updatedAt u of None \<Rightarrow> updatedAt t | Some v \<Rightarrow> v),
      completedAt = (case p_completedAt u of None \<Rightarrow> completedAt t | Some v \<Rightarrow> v),
      estimatedTime = (case p_estimatedTime u of None \<Rightarrow> estimatedTime t | Some v \<Rightarrow> v),
      actualTime = (case p_actualTime u of None \<Rightarrow> actualTime t | Some v \<Rightarrow> v),
      task_notes = (case p_notes u of None \<Rightarrow> task_notes t | Some v \<Rightarrow> v),
      links = (case p_links u of None \<Rightarrow> links t | Some v \<Rightarrow> v)\<rparr>"

definition DB_updateTask ::
  "clock \<Rightarrow> string \<Rightarrow> task_partial \<Rightarrow> storage \<Rightarrow> task option \<times> storage" where
  "DB_updateTask clk taskId updates st =
     (let tasks0 = DB_getTasks st
      in case findIndex (\<lambda>t. task_id t = Some taskId) tasks0 of
           None \<Rightarrow> (None, st)
         | Some index \<Rightarrow>
             (let new = (spread (tasks0 ! index) updates)\<lparr>updatedAt := nowISO clk\<rparr>;
                  tasks1 = tasks0[index := new]
              in (Some (tasks1 ! index), snd (DB_saveTasks tasks1 st))))"

definition DB_deleteTask :: "string \<Rightarrow> storage \<Rightarrow> bool \<times> storage" where
  "DB_deleteTask taskId st =
     (let tasks0 = DB_getTasks st;
          filteredTasks = filter (\<lambda>t. task_id t \<noteq> Some taskId) tasks0
      in if length filteredTasks = length tasks0 then (False, st)
         else (True, snd (DB_saveTasks filteredTasks st)))"

definition DB_toggleTaskComplete ::
  "clock \<Rightarrow> string \<Rightarrow> storage \<Rightarrow> task option \<times> storage" where
  "DB_toggleTaskComplete clk taskId st =
     (case find (\<lambda>t. task_id t = Some taskId) (DB_getTasks st) of
        None \<Rightarrow> (None, st)
      | Some t \<Rightarrow>
          DB_updateTask clk taskId
            (no_fields\<lparr>p_completed := Some (\<not> completed t),
                       p_completedAt := Some (if \<not> completed t then Some (nowISO clk) else None)\<rparr>)
            st)"

text \<open>
  The exported envelope \<^verbatim>\<open>{tasks, settings, exportedAt}\<close> and the texts
  \<^verbatim>\<open>importData\<close> can be given: one that \<^verbatim>\<open>JSON.parse\<close> rejects, or the JSON text
  of an object whose \<^verbatim>\<open>tasks\<close> and \<^verbatim>\<open>settings\<close> properties may be missing.
\<close>

record document =
  doc_tasks :: "task list option"
  doc_settings :: "settings option"
  doc_exportedAt :: "string option"

datatype json_text = Unparsable | Text document

definition JSON_stringify :: "document \<Rightarrow> json_text" where
  "JSON_stringify d = Text d"

definition JSON_parse :: "json_text \<Rightarrow> document option" where
  "JSON_parse s = (case s of Unparsable \<Rightarrow> None | Text d \<Rightarrow> Some d)"

definition DB_exportData :: "clock \<Rightarrow> storage \<Rightarrow> json_text" where
  "DB_exportData clk st =
     JSON_stringify \<lparr>doc_tasks = Some (DB_getTasks st),
                      doc_settings = Some (DB_getSettings st),
                      doc_exportedAt = Some (nowISO clk)\<rparr>"

definition DB_importData :: "json_text \<Rightarrow> storage \<Rightarrow> bool \<times> storage" where
  "DB_importData jsonString st =
     (case JSON_parse jsonString of
        None \<Rightarrow> (False, st)
      | Some d \<Rightarrow>
          (let st1 = (case doc_tasks d of None \<Rightarrow> st | Some ts \<Rightarrow> snd (DB_saveTasks ts st));
               st2 = (case doc_settings d of None \<Rightarrow> st1
                      | Some s \<Rightarrow> snd (DB_saveSettings s st1))
           in (True, st2)))"

subsection \<open>TaskService\<close>

definition getAllTasks :: "clock \<Rightarrow> storage \<Rightarrow> task list" where
  "getAllTasks clk st = map (fromJSON clk) (DB_getTasks st)"

definition createTask :: "clock \<Rightarrow> task_partial \<Rightarrow> storage \<Rightarrow> task option \<times> storage" where
  "createTask clk taskData st =
     (let t = Task clk taskData; v = validate clk t
      in if \<not> isValid v then (None, st)
         else (case DB_addTask clk (toJSON t) st of
                 (savedTask, st') \<Rightarrow> (Some (fromJSON clk savedTask), st')))"

definition updateTask ::
  "clock \<Rightarrow> string \<Rightarrow> task_partial \<Rightarrow> storage \<Rightarrow> task option \<times> storage" where
  "updateTask clk taskId updates st =
     (case DB_updateTask clk taskId updates st of
        (None, st') \<Rightarrow> (None, st')
      | (Some u, st') \<Rightarrow> (Some (fromJSON clk u), st'))"

definition deleteTask :: "string \<Rightarrow> storage \<Rightarrow> bool \<times> storage" where
  "deleteTask taskId st = DB_deleteTask taskId st"

definition toggleTaskComplete ::
  "clock \<Rightarrow> string \<Rightarrow> storage \<Rightarrow> task option \<times> storage" where
  "toggleTaskComplete clk taskId st =
     (case DB_toggleTaskComplete clk taskId st of
        (None, st') \<Rightarrow> (None, st')
      | (Some u, st') \<Rightarrow> (Some (fromJSON clk u), st'))"

text \<open>
  The \<^verbatim>\<open>filters\<close> argument of \<^verbatim>\<open>getFilteredTasks\<close>; \<open>None\<close> is an absent
  property.
\<close>

record filters =
  f_completed :: "bool option"
  f_priority :: "string option"
  f_dueFilter :: "string option"
  f_tags :: "string list option"
  f_search :: "string option"

definition no_filters :: filters where
  "no_filters = \<lparr>f_completed = None, f_priority = None, f_dueFilter = None,
     f_tags = None, f_search = None\<rparr>"

definition by_completed :: "filters \<Rightarrow> task list \<Rightarrow> task list" where
  "by_completed f ts =
     (case f_completed f of None \<Rightarrow> ts | Some c \<Rightarrow> filter (\<lambda>t. completed t = c) ts)"

definition by_priority :: "filters \<Rightarrow> task list \<Rightarrow> task list" where
  "by_priority f ts =
     (case f_priority f of None \<Rightarrow> ts
      | Some p \<Rightarrow> if p = [] then ts else filter (\<lambda>t. priority t = p) ts)"

definition by_dueFilter :: "clock \<Rightarrow> filters \<Rightarrow> task list \<Rightarrow> task list" where
  "by_dueFilter clk f ts =
     (case f_dueFilter f of None \<Rightarrow> ts
      | Some d \<Rightarrow>
          if d = [] then ts
          else if d = ''today'' then filter (\<lambda>t. isDueToday clk t) ts
          else if d = ''upcoming'' then filter (\<lambda>t. isDueThisWeek clk t \<and> \<not> isDueToday clk t) ts
          else if d = ''overdue'' then filter (\<lambda>t. isOverdue clk t) ts
          else ts)"

definition by_tags :: "filters \<Rightarrow> task list \<Rightarrow> task list" where
  "by_tags f ts =
     (case f_tags f of None \<Rightarrow> ts
      | Some wanted \<Rightarrow>
          if length wanted > 0
          then filter (\<lambda>t. list_ex (\<lambda>tag. tag \<in> set (tags t)) wanted) ts
          else ts)"

definition by_search :: "filters \<Rightarrow> task list \<Rightarrow> task list" where
  "by_search f ts =
     (case f_search f of None \<Rightarrow> ts
      | Some q \<Rightarrow>
          if q = [] then ts
          else (let searchLower = toLowerCase q
                in filter (\<lambda>t. includes_str (toLowerCase (title t)) searchLower \<or>
                               includes_str (toLowerCase (description t)) searchLower) ts))"

definition getFilteredTasks :: "clock \<Rightarrow> filters \<Rightarrow> storage \<Rightarrow> task list" where
  "getFilteredTasks clk f st =
     by_search f (by_tags f (by_dueFilter clk f (by_priority f (by_completed f
       (getAllTasks clk st)))))"

definition getTodayTasks :: "clock \<Rightarrow> storage \<Rightarrow> task list" where
  "getTodayTasks clk st =
     getFilteredTasks clk (no_filters\<lparr>f_dueFilter := Some ''today'', f_completed := Some False\<rparr>) st"

definition getUpcomingTasks :: "clock \<Rightarrow> storage \<Rightarrow> task list" where
  "getUpcomingTasks clk st =
     getFilteredTasks clk (no_filters\<lparr>f_dueFilter := Some ''upcoming'', f_completed := Some False\<rparr>) st"

definition getCompletedTasks :: "clock \<Rightarrow> storage \<Rightarrow> task list" where
  "getCompletedTasks clk st = getFilteredTasks clk (no_filters\<lparr>f_completed := Some True\<rparr>) st"

definition searchTasks :: "clock \<Rightarrow> string \<Rightarrow> storage \<Rightarrow> task list" where
  "searchTasks clk query st = getFilteredTasks clk (no_filters\<lparr>f_search := Some query\<rparr>) st"

subsection \<open>Sorting\<close>

text \<open>
  The values a task property can hold, and the values the comparator of
  \<^verbatim>\<open>sortTasks\<close> derives from them. Numbers are the integers (time values, minute
  counts) and \<^verbatim>\<open>NaN\<close>.
\<close>

datatype jsval = JUndefined | JNull | JBool bool | JNum int | JNaN | JStr string
  | JArr "string list"

datatype js_error = TypeError

text \<open>\<^verbatim>\<open>a[sortBy]\<close>: a name that is no field of the task gives \<^verbatim>\<open>undefined\<close>.\<close>

definition opt_str :: "string option \<Rightarrow> jsval" where
  "opt_str v = (case v of None \<Rightarrow> JNull | Some s \<Rightarrow> JStr s)"

definition opt_num :: "int option \<Rightarrow> jsval" where
  "opt_num v = (case v of None \<Rightarrow> JNull | Some n \<Rightarrow> JNum n)"

definition getProp :: "task \<Rightarrow> string \<Rightarrow> jsval" where
  "getProp t k =
     (if k = ''id'' then opt_str (task_id t)
      else if k = ''title'' then JStr (title t)
      else if k = ''description'' then JStr (description t)
      else if k = ''completed'' then JBool (completed t)
      else if k = ''priority'' then JStr (priority t)
      else if k = ''dueDate'' then opt_str (dueDate t)
      else if k = ''tags'' then JArr (tags t)
      else if k = ''createdAt'' then JStr (createdAt t)
      else if k = ''updatedAt'' then JStr (updatedAt t)
      else if k = ''completedAt'' then opt_str (completedAt t)
      else if k = ''estimatedTime'' then opt_num (estimatedTime t)
      else if k = ''actualTime'' then opt_num (actualTime t)
      else if k = ''notes'' then JStr (task_notes t)
      else if k = ''links'' then JArr (links t)
      else JUndefined)"

definition truthy :: "jsval \<Rightarrow> bool" where
  "truthy v =
     (case v of JUndefined \<Rightarrow> False | JNull \<Rightarrow> False | JBool b \<Rightarrow> b | JNum n \<Rightarrow> n \<noteq> 0
      | JNaN \<Rightarrow> False | JStr s \<Rightarrow> s \<noteq> [] | JArr xs \<Rightarrow> True)"

text \<open>\<^verbatim>\<open>xs.join(',')\<close>, the primitive value of an array of strings.\<close>

fun join :: "string list \<Rightarrow> string" where
  "join [] = []"
| "join [x] = x"
| "join (x # y # ys) = x @ '','' @ join (y # ys)"

definition time_of_string :: "clock \<Rightarrow> string \<Rightarrow> jsval" where
  "time_of_string clk s = (case parseDate clk s of None \<Rightarrow> JNaN | Some n \<Rightarrow> JNum n)"

text \<open>\<^verbatim>\<open>v ? new Date(v).getTime() : 0\<close>.\<close>

definition to_time :: "clock \<Rightarrow> jsval \<Rightarrow> jsval" where
  "to_time clk v =
     (if \<not> truthy v then JNum 0
      else (case v of
              JStr s \<Rightarrow> time_of_string clk s
            | JArr xs \<Rightarrow> time_of_string clk (join xs)
            | JNum n \<Rightarrow> if \<bar>n\<bar> \<le> 8640000000000000 then JNum n else JNaN
            | JBool b \<Rightarrow> JNum 1
            | _ \<Rightarrow> JNum 0))"

text \<open>Strings compare by code unit, lexicographically.\<close>

fun str_lt :: "string \<Rightarrow> string \<Rightarrow> bool" where
  "str_lt [] [] = False"
| "str_lt [] (y # ys) = True"
| "str_lt (x # xs) [] = False"
| "str_lt (x # xs) (y # ys) =
     ((of_char x :: nat) < of_char y \<or> (x = y \<and> str_lt xs ys))"

definition to_primitive :: "jsval \<Rightarrow> jsval" where
  "to_primitive v = (case v of JArr xs \<Rightarrow> JStr (join xs) | _ \<Rightarrow> v)"

definition to_number :: "clock \<Rightarrow> jsval \<Rightarrow> int option" where
  "to_number clk v =
     (case v of JUndefined \<Rightarrow> None | JNull \<Rightarrow> Some 0
      | JBool b \<Rightarrow> Some (if b then 1 else 0) | JNum n \<Rightarrow> Some n | JNaN \<Rightarrow> None
      | JStr s \<Rightarrow> stringToNumber clk s | JArr xs \<Rightarrow> stringToNumber clk (join xs))"

text \<open>\<^verbatim>\<open>a < b\<close>; a comparison with \<^verbatim>\<open>NaN\<close> is false.\<close>

definition js_lt :: "clock \<Rightarrow> jsval \<Rightarrow> jsval \<Rightarrow> bool" where
  "js_lt clk a b =
     (case (to_primitive a, to_primitive b) of
        (JStr x, JStr y) \<Rightarrow> str_lt x y
      | (pa, pb) \<Rightarrow>
          (case (to_number clk pa, to_number clk pb) of
             (Some m, Some n) \<Rightarrow> m < n
           | _ \<Rightarrow> False))"

definition is_date_key :: "string \<Rightarrow> bool" where
  "is_date_key sortBy = (includes_str sortBy ''At'' \<or> sortBy = ''dueDate'')"

text \<open>The value of a task under the sort key, after the ``Handle dates'' step.\<close>

definition sortValue :: "clock \<Rightarrow> string \<Rightarrow> task \<Rightarrow> jsval" where
  "sortValue clk sortBy t =
     (if is_date_key sortBy then to_time clk (getProp t sortBy) else getProp t sortBy)"

definition is_string :: "jsval \<Rightarrow> bool" where
  "is_string v = (case v of JStr s \<Rightarrow> True | _ \<Rightarrow> False)"

definition lower_val :: "jsval \<Rightarrow> jsval" where
  "lower_val v = (case v of JStr s \<Rightarrow> JStr (toLowerCase s) | _ \<Rightarrow> v)"

text \<open>
  The comparator. When \<^verbatim>\<open>aVal\<close> is a string, \<^verbatim>\<open>bVal.toLowerCase()\<close> is called
  too, which throws a \<^verbatim>\<open>TypeError\<close> unless \<^verbatim>\<open>bVal\<close> is a string as well.
\<close>

definition compareTasks ::
  "clock \<Rightarrow> string \<Rightarrow> string \<Rightarrow> task \<Rightarrow> task \<Rightarrow> js_error + int" where
  "compareTasks clk sortBy order a b =
     (let aVal = sortValue clk sortBy a; bVal = sortValue clk sortBy b
      in if is_string aVal \<and> \<not> is_string bVal then Inl TypeError
         else (let aVal' = (if is_string aVal then lower_val aVal else aVal);
                   bVal' = (if is_string aVal then lower_val bVal else bVal)
               in if js_lt clk aVal' bVal' then Inr (if order = ''asc'' then - 1 else 1)
                  else if js_lt clk bVal' aVal' then Inr (if order = ''asc'' then 1 else - 1)
                  else Inr 0))"

text \<open>
  \<^verbatim>\<open>Array.prototype.sort\<close> is the engine's. ECMAScript fixes its result when the
  comparator is consistent (the sorted order, equal elements in their original order) and
  leaves the order to the implementation otherwise. The model is the algorithm of V8 for
  an array of fewer than 64 elements: the run at the start of the array is counted and,
  when strictly descending, reversed (\<^verbatim>\<open>CountAndMakeRun\<close>); every further element is
  inserted into the sorted part in front of it at the place a binary search finds
  (\<^verbatim>\<open>BinaryInsertionSort\<close>). The comparator is called with the same arguments in the
  same order, and an exception of the comparator ends the sort. (A longer array V8 cuts
  into such runs and merges them; on a consistent comparator that gives the result of
  this algorithm, the sorted order being unique then.)
\<close>

fun count_run :: "('a \<Rightarrow> 'a \<Rightarrow> js_error + int) \<Rightarrow> bool \<Rightarrow> 'a \<Rightarrow> 'a list \<Rightarrow> js_error + nat" where
  "count_run cmp isDescending previousElement [] = Inr 0"
| "count_run cmp isDescending previousElement (currentElement # rest) =
     (case cmp currentElement previousElement of
        Inl e \<Rightarrow> Inl e
      | Inr order \<Rightarrow>
          if (if isDescending then order \<ge> 0 else order < 0) then Inr 0
          else (case count_run cmp isDescending currentElement rest of
                  Inl e \<Rightarrow> Inl e
                | Inr n \<Rightarrow> Inr (Suc n)))"

text \<open>The array with its first run made ascending, and the length of that run.\<close>

fun countAndMakeRun :: "('a \<Rightarrow> 'a \<Rightarrow> js_error + int) \<Rightarrow> 'a list \<Rightarrow> js_error + ('a list \<times> nat)" where
  "countAndMakeRun cmp (elementHigh # elementLow # rest) =
     (case cmp elementLow elementHigh of
        Inl e \<Rightarrow> Inl e
      | Inr order \<Rightarrow>
          (case count_run cmp (order < 0) elementLow rest of
             Inl e \<Rightarrow> Inl e
           | Inr n \<Rightarrow>
               Inr (if order < 0
                    then rev (take (2 + n) (elementHigh # elementLow # rest)) @
                         drop (2 + n) (elementHigh # elementLow # rest)
                    else elementHigh # elementLow # rest,
                    2 + n)))"
| "countAndMakeRun cmp xs = Inr (xs, length xs)"

text \<open>
  The binary search for \<open>pivot\<close> in \<open>xs\<close> between \<open>left\<close> and \<open>right\<close>:
  \<^verbatim>\<open>if (order < 0) right = mid; else left = mid + 1\<close>.
\<close>

function binary_search ::
  "('a \<Rightarrow> 'a \<Rightarrow> js_error + int) \<Rightarrow> 'a \<Rightarrow> 'a list \<Rightarrow> nat \<Rightarrow> nat \<Rightarrow> js_error + nat" where
  "binary_search cmp pivot xs left right =
     (if left < right
      then (let mid = left + (right - left) div 2
            in case cmp pivot (xs ! mid) of
                 Inl e \<Rightarrow> Inl e
               | Inr order \<Rightarrow>
                   if order < 0 then binary_search cmp pivot xs left mid
                   else binary_search cmp pivot xs (mid + 1) right)
      else Inr left)"
  by pat_completeness auto
termination
  by (relation "measure (\<lambda>(cmp, pivot, xs, left, right). right - left)") auto

declare binary_search.simps [simp del]

fun binaryInsertionSort ::
  "('a \<Rightarrow> 'a \<Rightarrow> js_error + int) \<Rightarrow> 'a list \<Rightarrow> 'a list \<Rightarrow> js_error + 'a list" where
  "binaryInsertionSort cmp sortedPart [] = Inr sortedPart"
| "binaryInsertionSort cmp sortedPart (pivot # rest) =
     (case binary_search cmp pivot sortedPart 0 (length sortedPart) of
        Inl e \<Rightarrow> Inl e
      | Inr left \<Rightarrow>
          binaryInsertionSort cmp (take left sortedPart @ pivot # drop left sortedPart) rest)"

definition array_sort :: "('a \<Rightarrow> 'a \<Rightarrow> js_error + int) \<Rightarrow> 'a list \<Rightarrow> js_error + 'a list" where
  "array_sort cmp xs =
     (if length xs < 2 then Inr xs
      else (case countAndMakeRun cmp xs of
              Inl e \<Rightarrow> Inl e
            | Inr (ys, runLength) \<Rightarrow>
                binaryInsertionSort cmp (take runLength ys) (drop runLength ys)))"

definition sortTasks :: "clock \<Rightarrow> task list \<Rightarrow> string \<Rightarrow> string \<Rightarrow> js_error + task list" where
  "sortTasks clk tasks sortBy order = array_sort (compareTasks clk sortBy order) tasks"

text \<open>The key two tasks are compared by: the sort value, case folded when it is a string.\<close>

definition sortKey :: "clock \<Rightarrow> string \<Rightarrow> task \<Rightarrow> jsval" where
  "sortKey clk sortBy t = lower_val (sortValue clk sortBy t)"

subsection \<open>Statistics\<close>

text \<open>
  JavaScript numbers are IEEE 754 doubles. A division or multiplication returns the double
  nearest to the exact result, ties going to the even significand. \<open>to_double\<close> is
  that rounding on the rationals, with the 53 bit significand of a double (the exponent
  range plays no role for the magnitudes met here, between \<open>2\<^sup>-\<^sup>3\<^sup>2\<close> and 100).
\<close>

definition binade :: "rat \<Rightarrow> int" where
  "binade x =
     (case quotient_of x of
        (p, q) \<Rightarrow> (let d = bitlen p - bitlen q in if 2 powi d \<le> x then d else d - 1))"

definition roundTiesToEven :: "rat \<Rightarrow> int" where
  "roundTiesToEven y =
     (let f = \<lfloor>y\<rfloor>; r = y - of_int f
      in if r < 1 / 2 then f else if 1 / 2 < r then f + 1 else if even f then f else f + 1)"

definition to_double :: "rat \<Rightarrow> rat" where
  "to_double x =
     (if x = 0 then 0
      else (let e = binade \<bar>x\<bar> - 52
            in sgn x * of_int (roundTiesToEven (\<bar>x\<bar> / 2 powi e)) * 2 powi e))"

text \<open>\<^verbatim>\<open>Math.round\<close>: the nearest integer, a tie going up.\<close>

definition Math_round :: "rat \<Rightarrow> int" where
  "Math_round x = \<lfloor>x + 1 / 2\<rfloor>"

definition completionRate_of :: "nat \<Rightarrow> nat \<Rightarrow> int" where
  "completionRate_of completedLength tasksLength =
     (if tasksLength > 0
      then Math_round (to_double (to_double (of_nat completedLength / of_nat tasksLength) * 100))
      else 0)"

record priority_counts =
  low :: nat
  medium :: nat
  high :: nat
  urgent :: nat

record statistics =
  total :: nat
  completedCount :: nat
  active :: nat
  overdue :: nat
  completionRate :: int
  byPriority :: priority_counts

definition getStatistics :: "clock \<Rightarrow> storage \<Rightarrow> statistics" where
  "getStatistics clk st =
     (let tasks0 = getAllTasks clk st;
          completed0 = filter (\<lambda>t. completed t) tasks0;
          active0 = filter (\<lambda>t. \<not> completed t) tasks0;
          overdue0 = filter (\<lambda>t. isOverdue clk t) tasks0
      in \<lparr>total = length tasks0,
          completedCount = length completed0,
          active = length active0,
          overdue = length overdue0,
          completionRate = completionRate_of (length completed0) (length tasks0),
          byPriority =
            \<lparr>low = length (filter (\<lambda>t. priority t = ''low'') tasks0),
             medium = length (filter (\<lambda>t. priority t = ''medium'') tasks0),
             high = length (filter (\<lambda>t. priority t = ''high'') tasks0),
             urgent = length (filter (\<lambda>t. priority t = ''urgent'') tasks0)\<rparr>\<rparr>)"

text \<open>The percentage rounded exactly, a tie going up: \<open>\<lfloor>100 c / t + 1/2\<rfloor>\<close>.\<close>

definition exact_rate :: "nat \<Rightarrow> nat \<Rightarrow> int" where
  "exact_rate c t = (200 * int c + int t) div (2 * int t)"

subsection \<open>TaskListView\<close>

definition getTasksForFilter :: "clock \<Rightarrow> string \<Rightarrow> storage \<Rightarrow> task list" where
  "getTasksForFilter clk flt st =
     (if flt = ''today'' then getTodayTasks clk st
      else if flt = ''upcoming'' then getUpcomingTasks clk st
      else if flt = ''completed'' then getCompletedTasks clk st
      else filter (\<lambda>t. \<not> completed t) (getAllTasks clk st))"

definition shouldShowTask :: "clock \<Rightarrow> task \<Rightarrow> string \<Rightarrow> bool" where
  "shouldShowTask clk t flt =
     (if flt = ''today'' then isDueToday clk t \<and> \<not> completed t
      else if flt = ''upcoming'' then isDueThisWeek clk t \<and> \<not> isDueToday clk t \<and> \<not> completed t
      else if flt = ''completed'' then completed t
      else \<not> completed t)"

text \<open>
  What \<^verbatim>\<open>render\<close> leaves on the page: one row per task, in order, and the empty state
  shown exactly when there is no row. (The sidebar counts are not part of the model.)
\<close>

record view =
  rows :: "task list"
  emptyStateShown :: bool

definition render :: "clock \<Rightarrow> string \<Rightarrow> string \<Rightarrow> storage \<Rightarrow> js_error + view" where
  "render clk flt search st =
     (let tasks0 = getTasksForFilter clk flt st;
          tasks1 = (if search \<noteq> []
                    then filter (\<lambda>t. shouldShowTask clk t flt) (searchTasks clk search st)
                    else tasks0)
      in case sortTasks clk tasks1 ''createdAt'' ''desc'' of
           Inl e \<Rightarrow> Inl e
         | Inr tasks2 \<Rightarrow> Inr \<lparr>rows = tasks2, emptyStateShown = (length tasks2 = 0)\<rparr>)"

text \<open>The search predicate of \<^verbatim>\<open>getFilteredTasks\<close>.\<close>

definition matches_search :: "string \<Rightarrow> task \<Rightarrow> bool" where
  "matches_search q t =
     (includes_str (toLowerCase (title t)) (toLowerCase q) \<or>
      includes_str (toLowerCase (description t)) (toLowerCase q))"

subsection \<open>A clock: a browser in the UTC time zone\<close>

text \<open>
  The proleptic Gregorian calendar on days since 1970-01-01, and the two date formats the
  application produces: the output of \<^verbatim>\<open>toISOString\<close> and the
  \<^verbatim>\<open>YYYY-MM-DD\<close> value of a date input, which \<^verbatim>\<open>Date\<close> reads as midnight UTC.
  Any other text is taken as unparsable by this clock.
\<close>

definition msPerDay :: int where
  "msPerDay = 86400000"

definition civil_from_days :: "int \<Rightarrow> int \<times> int \<times> int" where
  "civil_from_days z =
     (let z1 = z + 719468;
          era = z1 div 146097;
          doe = z1 - era * 146097;
          yoe = (doe - doe div 1460 + doe div 36524 - doe div 146096) div 365;
          y = yoe + era * 400;
          doy = doe - (365 * yoe + yoe div 4 - yoe div 100);
          mp = (5 * doy + 2) div 153;
          d = doy - (153 * mp + 2) div 5 + 1;
          m = (if mp < 10 then mp + 3 else mp - 9)
      in (if m \<le> 2 then y + 1 else y, m, d))"

definition days_from_civil :: "int \<Rightarrow> int \<Rightarrow> int \<Rightarrow> int" where
  "days_from_civil y m d =
     (let y1 = (if m \<le> 2 then y - 1 else y);
          era = y1 div 400;
          yoe = y1 - era * 400;
          doy = (153 * (if m > 2 then m - 3 else m + 9) + 2) div 5 + d - 1;
          doe = yoe * 365 + yoe div 4 - yoe div 100 + doy
      in era * 146097 + doe - 719468)"

definition utcYMD :: "int \<Rightarrow> int \<times> int \<times> int" where
  "utcYMD t = (case civil_from_days (t div msPerDay) of (y, m, d) \<Rightarrow> (y, m - 1, d))"

fun digits :: "string \<Rightarrow> int option" where
  "digits [] = Some 0"
| "digits (c # cs) =
     (let n = (of_char (last (c # cs)) :: nat)
      in if 48 \<le> n \<and> n \<le> 57
         then (case digits (butlast (c # cs)) of None \<Rightarrow> None
               | Some v \<Rightarrow> Some (10 * v + int n - 48))
         else None)"

definition parse_date_part :: "string \<Rightarrow> int option" where
  "parse_date_part s =
     (if length s = 10 \<and> s ! 4 = CHR ''-'' \<and> s ! 7 = CHR ''-''
      then (case (digits (take 4 s), digits (take 2 (drop 5 s)), digits (drop 8 s)) of
              (Some y, Some m, Some d) \<Rightarrow>
                if 1 \<le> m \<and> m \<le> 12 \<and> 1 \<le> d \<and>
                   civil_from_days (days_from_civil y m d) = (y, m, d)
                then Some (days_from_civil y m d * msPerDay) else None
            | _ \<Rightarrow> None)
      else None)"

definition parse_time_part :: "string \<Rightarrow> int option" where
  "parse_time_part s =
     (if length s = 14 \<and> s ! 0 = CHR ''T'' \<and> s ! 3 = CHR '':'' \<and> s ! 6 = CHR '':'' \<and>
         s ! 9 = CHR ''.'' \<and> s ! 13 = CHR ''Z''
      then (case (digits (take 2 (drop 1 s)), digits (take 2 (drop 4 s)),
                  digits (take 2 (drop 7 s)), digits (take 3 (drop 10 s))) of
              (Some h, Some mi, Some sec, Some ms) \<Rightarrow>
                if h \<le> 23 \<and> mi \<le> 59 \<and> sec \<le> 59
                then Some (((h * 60 + mi) * 60 + sec) * 1000 + ms) else None
            | _ \<Rightarrow> None)
      else None)"

definition parseISO :: "string \<Rightarrow> int option" where
  "parseISO s =
     (if length s = 10 then parse_date_part s
      else (case (parse_date_part (take 10 s), parse_time_part (drop 10 s)) of
              (Some d, Some t) \<Rightarrow> Some (d + t)
            | _ \<Rightarrow> None))"

text \<open>
  For this clock a text converts to a number when it is empty (0) or an unsigned decimal
  numeral, and to \<^verbatim>\<open>NaN\<close> otherwise, as an identifier does.
\<close>

definition decimalToNumber :: "string \<Rightarrow> int option" where
  "decimalToNumber s = (if s = [] then Some 0 else digits s)"

definition utc_clock :: "int \<Rightarrow> string \<Rightarrow> string \<Rightarrow> clock" where
  "utc_clock ms isoText fresh =
     \<lparr>nowMs = ms, nowISO = isoText, parseDate = parseISO, localYMD = utcYMD,
      freshId = fresh, stringToNumber = decimalToNumber\<rparr>"

text \<open>Friday 4 October 2024, 10:00 UTC.\<close>

definition clock0 :: clock where
  "clock0 = utc_clock 1728036000000 ''2024-10-04T10:00:00.000Z'' ''task_1728036000000_k3j9x2m1q''"

definition empty_storage :: storage where
  "empty_storage = \<lparr>tasks_item = Absent, settings_item = Absent, quota_exceeded = False\<rparr>"

subsection \<open>Completion consistency and example data\<close>

text \<open>A task is consistent when it is completed exactly if it has a completion time.\<close>

definition consistent :: "task \<Rightarrow> bool" where
  "consistent t = (completed t \<longleftrightarrow> completedAt t \<noteq> None)"

definition store1 :: storage where
  "store1 = snd (createTask clock0 (no_fields\<lparr>p_title := Some ''Ship report''\<rparr>) empty_storage)"

definition mark_done :: task_partial where
  "mark_done = no_fields\<lparr>p_completed := Some True\<rparr>"

definition retitle :: task_partial where
  "retitle = no_fields\<lparr>p_title := Some ''Ship the report''\<rparr>"

definition marked_store :: storage where
  "marked_store = snd (updateTask clock0 (freshId clock0) mark_done store1)"

text \<open>A task tagged ``work'', and a task with a given due date.\<close>

definition tagged :: task where
  "tagged = Task clock0 (no_fields\<lparr>p_title := Some ''Ship report'', p_tags := Some [''work'']\<rparr>)"

definition due_at :: "string \<Rightarrow> task" where
  "due_at s = Task clock0 (no_fields\<lparr>p_title := Some ''Ship report'', p_dueDate := Some (Some s)\<rparr>)"

text \<open>
  The selection of \<^verbatim>\<open>getFilteredTasks\<close> as the specification words it: one predicate
  per filter category, an absent (or empty) category accepting every task, the
  \<^verbatim>\<open>tags\<close> category accepting a task that has at least one of the listed tags.
\<close>

definition wants_completed :: "filters \<Rightarrow> task \<Rightarrow> bool" where
  "wants_completed f t = (case f_completed f of None \<Rightarrow> True | Some c \<Rightarrow> completed t = c)"

definition wants_priority :: "filters \<Rightarrow> task \<Rightarrow> bool" where
  "wants_priority f t =
     (case f_priority f of None \<Rightarrow> True | Some p \<Rightarrow> p = [] \<or> priority t = p)"

definition wants_due :: "clock \<Rightarrow> filters \<Rightarrow> task \<Rightarrow> bool" where
  "wants_due clk f t =
     (case f_dueFilter f of None \<Rightarrow> True
      | Some d \<Rightarrow>
          if d = ''today'' then isDueToday clk t
          else if d = ''upcoming'' then isDueThisWeek clk t \<and> \<not> isDueToday clk t
          else if d = ''overdue'' then isOverdue clk t
          else True)"

definition wants_tags :: "filters \<Rightarrow> task \<Rightarrow> bool" where
  "wants_tags f t =
     (case f_tags f of None \<Rightarrow> True
      | Some wanted \<Rightarrow> wanted = [] \<or> (\<exists>tag\<in>set wanted. tag \<in> set (tags t)))"

definition wants_search :: "filters \<Rightarrow> task \<Rightarrow> bool" where
  "wants_search f t =
     (case f_search f of None \<Rightarrow> True | Some q \<Rightarrow> q = [] \<or> matches_search q t)"

definition high_work :: filters where
  "high_work = no_filters\<lparr>f_priority := Some ''high'', f_tags := Some [''work'']\<rparr>"


text \<open>
  A second clock an hour later, the collection with a second task created then, and three
  tasks of which two have titles that differ in case only.
\<close>

definition clock1 :: clock where
  "clock1 = utc_clock 1728039600000 ''2024-10-04T11:00:00.000Z'' ''task_1728039600000_p0q8w7e6r''"

definition store2 :: storage where
  "store2 = snd (createTask clock1
     (no_fields\<lparr>p_title := Some ''Buy milk'', p_description := Some ''before shipping''\<rparr>) store1)"

definition three_tasks :: "task list" where
  "three_tasks =
     [Task clock0 (no_fields\<lparr>p_id := Some (Some ''a''), p_title := Some ''Report'', p_priority := Some ''high''\<rparr>),
      Task clock0 (no_fields\<lparr>p_id := Some (Some ''b''), p_title := Some ''Agenda'', p_priority := Some ''low''\<rparr>),
      Task clock1 (no_fields\<lparr>p_id := Some (Some ''c''), p_title := Some ''REPORT'', p_priority := Some ''high''\<rparr>)]"


text \<open>
  Seven tasks with the due dates x, x, 10 January, x, 6 January, 1 January, 6 January
  (of 1970), where x is no date.
\<close>

definition seven_tasks :: "task list" where
  "seven_tasks =
     map (\<lambda>(i, d). Task clock0 (no_fields\<lparr>p_id := Some (Some i), p_title := Some ''Review'',
                                              p_dueDate := Some (Some d)\<rparr>))
       [(''a'', ''x''), (''b'', ''x''), (''c'', ''1970-01-10''), (''d'', ''x''),
        (''e'', ''1970-01-06''), (''f'', ''1970-01-01''), (''g'', ''1970-01-06'')]"

text \<open>
  The values under a sort key are uniform when they are all strings, or all of
  \<^verbatim>\<open>null\<close>, booleans and numbers, or all arrays, or all \<^verbatim>\<open>undefined\<close> or
  \<^verbatim>\<open>NaN\<close>. The order the comparator then compares by: numbers by value, strings (case
  folded) and arrays (joined) by code units.
\<close>

definition is_numeric :: "jsval \<Rightarrow> bool" where
  "is_numeric v = (case v of JNull \<Rightarrow> True | JBool b \<Rightarrow> True | JNum n \<Rightarrow> True | _ \<Rightarrow> False)"

definition is_array :: "jsval \<Rightarrow> bool" where
  "is_array v = (case v of JArr xs \<Rightarrow> True | _ \<Rightarrow> False)"

definition is_nan :: "jsval \<Rightarrow> bool" where
  "is_nan v = (case v of JUndefined \<Rightarrow> True | JNaN \<Rightarrow> True | _ \<Rightarrow> False)"

definition uniform_values :: "clock \<Rightarrow> string \<Rightarrow> task list \<Rightarrow> bool" where
  "uniform_values clk sortBy ts =
     (list_all (\<lambda>t. is_string (sortValue clk sortBy t)) ts \<or>
      list_all (\<lambda>t. is_numeric (sortValue clk sortBy t)) ts \<or>
      list_all (\<lambda>t. is_array (sortValue clk sortBy t)) ts \<or>
      list_all (\<lambda>t. is_nan (sortValue clk sortBy t)) ts)"

definition rank :: "jsval \<Rightarrow> int + string" where
  "rank v =
     (case v of JStr s \<Rightarrow> Inr (toLowerCase s) | JArr xs \<Rightarrow> Inr (join xs)
      | JNull \<Rightarrow> Inl 0 | JBool b \<Rightarrow> Inl (if b then 1 else 0) | JNum n \<Rightarrow> Inl n
      | JUndefined \<Rightarrow> Inl 0 | JNaN \<Rightarrow> Inl 0)"

fun rank_lt :: "int + string \<Rightarrow> int + string \<Rightarrow> bool" where
  "rank_lt (Inl m) (Inl n) = (m < n)"
| "rank_lt (Inr x) (Inr y) = str_lt x y"
| "rank_lt (Inl m) (Inr y) = True"
| "rank_lt (Inr x) (Inl n) = False"

text \<open>A strict total order, and a comparator that compares by it through a key.\<close>

definition strict_total :: "('k \<Rightarrow> 'k \<Rightarrow> bool) \<Rightarrow> bool" where
  "strict_total lt =
     ((\<forall>x. \<not> lt x x) \<and> (\<forall>x y z. lt x y \<and> lt y z \<longrightarrow> lt x z) \<and>
      (\<forall>x y. x \<noteq> y \<longrightarrow> lt x y \<or> lt y x))"

definition compares_by ::
  "('a \<Rightarrow> 'a \<Rightarrow> js_error + int) \<Rightarrow> ('a \<Rightarrow> 'k) \<Rightarrow> ('k \<Rightarrow> 'k \<Rightarrow> bool) \<Rightarrow> 'a set \<Rightarrow> bool" where
  "compares_by cmp f lt S =
     (\<forall>a\<in>S. \<forall>b\<in>S. cmp a b = Inr (if lt (f a) (f b) then - 1 else if lt (f b) (f a) then 1 else 0))"

text \<open>
  Forty tasks of which the first twenty-three are completed, and the two-task collection
  after its first task has been toggled.
\<close>

definition forty_tasks :: "task list" where
  "forty_tasks =
     map (\<lambda>i. Task clock0
            (no_fields\<lparr>p_id := Some (Some (''task_'' @ [char_of (65 + i)])),
                       p_title := Some ''Review chapter'',
                       p_completed := Some (i < 23),
                       p_completedAt := Some (if i < 23 then Some (nowISO clock0) else None)\<rparr>))
       [0..<40]"

definition store40 :: storage where
  "store40 = \<lparr>tasks_item = Stored forty_tasks, settings_item = Absent, quota_exceeded = False\<rparr>"

definition store2_done :: storage where
  "store2_done = snd (toggleTaskComplete clock1 (freshId clock0) store2)"

section \<open>Verified properties\<close>

subsection \<open>Stored collections\<close>

lemma findIndex_Some: "findIndex P xs = Some i \<Longrightarrow> i < length xs \<and> P (xs ! i)"
  by (induction xs arbitrary: i) (auto split: if_splits option.splits)

lemma find_findIndex: "find P xs = Some t \<Longrightarrow> \<exists>i. findIndex P xs = Some i \<and> xs ! i = t"
  by (induction xs) (auto split: if_splits)

lemma saveTasks_getTasks:
  "DB_getTasks (snd (DB_saveTasks ts st)) = (if quota_exceeded st then DB_getTasks st else ts)"
  by (simp add: DB_saveTasks_def DB_getTasks_def)

lemma set_update_cases: "x \<in> set (xs[i := v]) \<Longrightarrow> x = v \<or> x \<in> set xs"
  by (metis in_set_conv_nth length_list_update nth_list_update_eq nth_list_update_neq)

lemma DB_updateTask_None:
  "findIndex (\<lambda>t. task_id t = Some tid) (DB_getTasks st) = None \<Longrightarrow>
   DB_updateTask clk tid u st = (None, st)"
  by (simp add: DB_updateTask_def)

lemma DB_updateTask_Some:
  "findIndex (\<lambda>t. task_id t = Some tid) (DB_getTasks st) = Some i \<Longrightarrow>
   DB_updateTask clk tid u st =
     (Some ((DB_getTasks st)[i := (spread (DB_getTasks st ! i) u)\<lparr>updatedAt := nowISO clk\<rparr>] ! i),
      snd (DB_saveTasks ((DB_getTasks st)[i := (spread (DB_getTasks st ! i) u)\<lparr>updatedAt := nowISO clk\<rparr>]) st))"
  by (simp add: DB_updateTask_def Let_def)

lemma DB_updateTask_stored:
  assumes "r \<in> set (DB_getTasks (snd (DB_updateTask clk tid u st)))"
  shows "r \<in> set (DB_getTasks st) \<or>
         (\<exists>old. find (\<lambda>t. task_id t = Some tid) (DB_getTasks st) = Some old \<and>
                r = (spread old u)\<lparr>updatedAt := nowISO clk\<rparr>)"
proof (cases "findIndex (\<lambda>t. task_id t = Some tid) (DB_getTasks st)")
  case None
  show ?thesis using assms unfolding DB_updateTask_None[OF None] by simp
next
  case (Some i)
  let ?ts = "DB_getTasks st"
  let ?new = "(spread (?ts ! i) u)\<lparr>updatedAt := nowISO clk\<rparr>"
  have i: "i < length ?ts" "task_id (?ts ! i) = Some tid"
    using findIndex_Some[OF Some] by simp_all
  have "find (\<lambda>t. task_id t = Some tid) ?ts \<noteq> None"
    unfolding find_None_iff using i(2) nth_mem[OF i(1)] by blast
  then obtain old where old: "find (\<lambda>t. task_id t = Some tid) ?ts = Some old"
    by blast
  have oi: "?ts ! i = old" using find_findIndex[OF old] Some by simp
  have "r \<in> set (DB_getTasks (snd (DB_saveTasks (?ts[i := ?new]) st)))"
    using assms unfolding DB_updateTask_Some[OF Some] by simp
  then have "r \<in> set ?ts \<or> r \<in> set (?ts[i := ?new])"
    unfolding saveTasks_getTasks by (simp split: if_splits)
  then have "r \<in> set ?ts \<or> r = ?new"
    using set_update_cases[of r ?ts i ?new] by blast
  then show ?thesis using oi old by blast
qed

lemma snd_updateTask: "snd (updateTask clk tid u st) = snd (DB_updateTask clk tid u st)"
  by (simp add: updateTask_def split: prod.splits option.splits)

lemma snd_toggleTaskComplete:
  "snd (toggleTaskComplete clk tid st) = snd (DB_toggleTaskComplete clk tid st)"
  by (simp add: toggleTaskComplete_def split: prod.splits option.splits)

lemma spread_untouched:
  "p_completed u = None \<Longrightarrow> p_completedAt u = None \<Longrightarrow>
   consistent ((spread r u)\<lparr>updatedAt := x\<rparr>) = consistent r"
  by (simp add: consistent_def spread_def)

lemma toggleComplete_consistent: "consistent (toggleComplete clk t)"
  by (simp add: consistent_def toggleComplete_def Let_def)

lemma Task_consistent:
  "p_completed d = None \<Longrightarrow> p_completedAt d = None \<Longrightarrow> consistent (Task clk d)"
  by (simp add: consistent_def Task_def or_null_str_def)

lemma find_mem: "find P xs = Some x \<Longrightarrow> x \<in> set xs \<and> P x"
  by (induction xs) (auto split: if_splits)

lemma update_keeps_consistent:
  assumes "\<forall>r\<in>set (DB_getTasks st). consistent r" "p_completed u = None" "p_completedAt u = None"
  shows "\<forall>r\<in>set (DB_getTasks (snd (DB_updateTask clk tid u st))). consistent r"
proof
  fix r assume "r \<in> set (DB_getTasks (snd (DB_updateTask clk tid u st)))"
  from DB_updateTask_stored[OF this]
  consider "r \<in> set (DB_getTasks st)"
    | old where "find (\<lambda>t. task_id t = Some tid) (DB_getTasks st) = Some old"
        "r = (spread old u)\<lparr>updatedAt := nowISO clk\<rparr>"
    by blast
  then show "consistent r"
  proof cases
    case 1
    then show ?thesis using assms(1) by blast
  next
    case 2
    have "consistent old" using find_mem[OF 2(1)] assms(1) by blast
    then show ?thesis unfolding 2(2) spread_untouched[OF assms(2,3)] .
  qed
qed

lemma toggle_keeps_consistent:
  assumes "\<forall>r\<in>set (DB_getTasks st). consistent r"
  shows "\<forall>r\<in>set (DB_getTasks (snd (DB_toggleTaskComplete clk tid st))). consistent r"
proof (cases "find (\<lambda>t. task_id t = Some tid) (DB_getTasks st)")
  case None
  then show ?thesis using assms by (simp add: DB_toggleTaskComplete_def)
next
  case (Some t)
  let ?u = "no_fields\<lparr>p_completed := Some (\<not> completed t),
                       p_completedAt := Some (if \<not> completed t then Some (nowISO clk) else None)\<rparr>"
  have eq: "DB_toggleTaskComplete clk tid st = DB_updateTask clk tid ?u st"
    using Some by (simp add: DB_toggleTaskComplete_def)
  have new: "consistent ((spread t ?u)\<lparr>updatedAt := nowISO clk\<rparr>)"
    by (simp add: consistent_def spread_def no_fields_def)
  show ?thesis
  proof
    fix r assume "r \<in> set (DB_getTasks (snd (DB_toggleTaskComplete clk tid st)))"
    then have "r \<in> set (DB_getTasks (snd (DB_updateTask clk tid ?u st)))"
      unfolding eq .
    from DB_updateTask_stored[OF this]
    have "r \<in> set (DB_getTasks st) \<or> r = (spread t ?u)\<lparr>updatedAt := nowISO clk\<rparr>"
      unfolding Some by blast
    then show "consistent r" using assms new by auto
  qed
qed

lemma create_keeps_consistent:
  assumes "\<forall>r\<in>set (DB_getTasks st). consistent r" "p_completed d = None" "p_completedAt d = None"
  shows "\<forall>r\<in>set (DB_getTasks (snd (createTask clk d st))). consistent r"
proof -
  have "consistent (fst (DB_addTask clk (toJSON (Task clk d)) st))"
    using Task_consistent[OF assms(2,3), of clk]
    by (simp add: DB_addTask_def Let_def toJSON_def consistent_def)
  then show ?thesis using assms(1)
    by (auto simp: createTask_def Let_def DB_addTask_def saveTasks_getTasks split: prod.splits if_splits)
qed

lemma DB_updateTask_found:
  assumes "find (\<lambda>t. task_id t = Some tid) (DB_getTasks st) = Some old"
  shows "\<exists>i<length (DB_getTasks st). DB_getTasks st ! i = old \<and>
           DB_updateTask clk tid u st =
             (Some ((spread old u)\<lparr>updatedAt := nowISO clk\<rparr>),
              snd (DB_saveTasks ((DB_getTasks st)[i := (spread old u)\<lparr>updatedAt := nowISO clk\<rparr>]) st))"
proof -
  obtain i where i: "findIndex (\<lambda>t. task_id t = Some tid) (DB_getTasks st) = Some i"
    "DB_getTasks st ! i = old"
    using find_findIndex[OF assms] by blast
  have l: "i < length (DB_getTasks st)" using findIndex_Some[OF i(1)] by simp
  have "DB_updateTask clk tid u st =
             (Some ((spread old u)\<lparr>updatedAt := nowISO clk\<rparr>),
              snd (DB_saveTasks ((DB_getTasks st)[i := (spread old u)\<lparr>updatedAt := nowISO clk\<rparr>]) st))"
    unfolding DB_updateTask_Some[OF i(1)] i(2) using l by simp
  then show ?thesis using l i(2) by blast
qed

text \<open>The object \<^verbatim>\<open>DB.toggleTaskComplete\<close> writes over a stored task \<open>old\<close>.\<close>

lemma toggle_update_consistent:
  "consistent ((spread old
      (no_fields\<lparr>p_completed := Some (\<not> completed old),
                 p_completedAt := Some (if \<not> completed old then Some x else None)\<rparr>))
      \<lparr>updatedAt := x\<rparr>) \<and>
   completed ((spread old
      (no_fields\<lparr>p_completed := Some (\<not> completed old),
                 p_completedAt := Some (if \<not> completed old then Some x else None)\<rparr>))
      \<lparr>updatedAt := x\<rparr>) = (\<not> completed old)"
  by (simp add: consistent_def spread_def no_fields_def)

lemma DB_toggle_found:
  assumes "find (\<lambda>t. task_id t = Some tid) (DB_getTasks st) = Some old"
  shows "\<exists>i new. i < length (DB_getTasks st) \<and> DB_getTasks st ! i = old \<and>
           consistent new \<and> completed new = (\<not> completed old) \<and>
           DB_toggleTaskComplete clk tid st =
             (Some new, snd (DB_saveTasks ((DB_getTasks st)[i := new]) st))"
proof -
  let ?u = "no_fields\<lparr>p_completed := Some (\<not> completed old),
                       p_completedAt := Some (if \<not> completed old then Some (nowISO clk) else None)\<rparr>"
  let ?new = "(spread old ?u)\<lparr>updatedAt := nowISO clk\<rparr>"
  have eq: "DB_toggleTaskComplete clk tid st = DB_updateTask clk tid ?u st"
    using assms by (simp add: DB_toggleTaskComplete_def)
  obtain i where i: "i < length (DB_getTasks st)" "DB_getTasks st ! i = old"
    "DB_updateTask clk tid ?u st = (Some ?new, snd (DB_saveTasks ((DB_getTasks st)[i := ?new]) st))"
    using DB_updateTask_found[OF assms] by blast
  have c: "consistent ?new \<and> completed ?new = (\<not> completed old)"
    by (rule toggle_update_consistent)
  show ?thesis using i(1,2) c i(3)[folded eq] by blast
qed

lemma DB_toggle_missing:
  assumes "find (\<lambda>t. task_id t = Some tid) (DB_getTasks st) = None"
  shows "DB_toggleTaskComplete clk tid st = (None, st)"
  using assms by (simp add: DB_toggleTaskComplete_def)

lemma DB_toggle_returns_consistent:
  assumes "fst (DB_toggleTaskComplete clk tid st) = Some r"
  shows "consistent r"
proof (cases "find (\<lambda>t. task_id t = Some tid) (DB_getTasks st)")
  case None
  then show ?thesis using assms DB_toggle_missing by simp
next
  case (Some old)
  from DB_toggle_found[OF Some, of clk] assms show ?thesis by auto
qed

lemma fromJSON_consistent:
  assumes "consistent r" "completedAt r \<noteq> Some []"
  shows "consistent (fromJSON clk r)"
proof (cases "completedAt r")
  case None
  then show ?thesis using assms(1)
    by (simp add: consistent_def fromJSON_def Task_def as_data_def or_null_str_def)
next
  case (Some s)
  then show ?thesis using assms
    by (simp add: consistent_def fromJSON_def Task_def as_data_def or_null_str_def)
qed

lemma DB_toggle_completedAt:
  assumes "fst (DB_toggleTaskComplete clk tid st) = Some r"
  shows "completedAt r = None \<or> completedAt r = Some (nowISO clk)"
proof (cases "find (\<lambda>t. task_id t = Some tid) (DB_getTasks st)")
  case None
  then show ?thesis using assms DB_toggle_missing by simp
next
  case (Some old)
  let ?u = "no_fields\<lparr>p_completed := Some (\<not> completed old),
                       p_completedAt := Some (if \<not> completed old then Some (nowISO clk) else None)\<rparr>"
  have eq: "DB_toggleTaskComplete clk tid st = DB_updateTask clk tid ?u st"
    using Some by (simp add: DB_toggleTaskComplete_def)
  obtain i where "DB_updateTask clk tid ?u st =
      (Some ((spread old ?u)\<lparr>updatedAt := nowISO clk\<rparr>),
       snd (DB_saveTasks ((DB_getTasks st)[i := (spread old ?u)\<lparr>updatedAt := nowISO clk\<rparr>]) st))"
    using DB_updateTask_found[OF Some] by blast
  then have "r = (spread old ?u)\<lparr>updatedAt := nowISO clk\<rparr>" using assms eq by simp
  then show ?thesis by (simp add: spread_def no_fields_def)
qed

lemma toggleTaskComplete_fst:
  "fst (toggleTaskComplete clk tid st) = map_option (fromJSON clk) (fst (DB_toggleTaskComplete clk tid st))"
  by (simp add: toggleTaskComplete_def split: prod.splits option.splits)

subsection \<open>C1: completion flag and completion time\<close>

text \<open>
  Claim C1, as amended. Toggling completion always leaves the toggled task completed
  exactly if it has a completion time, whatever it was before: the object after
  \<^verbatim>\<open>Task.toggleComplete\<close>, the stored object \<^verbatim>\<open>DB.toggleTaskComplete\<close> returns and
  the task object the service makes of it; a toggle of a stored task replaces that task
  by one of the opposite completion state, and a toggle of an unknown identifier changes
  nothing. The constructor, task creation and \<^verbatim>\<open>updateTask\<close> copy \<^verbatim>\<open>completed\<close>
  and \<^verbatim>\<open>completedAt\<close> from their argument: when the argument sets neither of the two,
  a consistent collection stays consistent.
\<close>

theorem completion_consistency_of_operations:
  "consistent (toggleComplete clk t) \<and>
   (\<forall>r. fst (DB_toggleTaskComplete clk tid st) = Some r \<longrightarrow> consistent r) \<and>
   (\<forall>t'. fst (toggleTaskComplete clk tid st) = Some t' \<and> nowISO clk \<noteq> [] \<longrightarrow> consistent t') \<and>
   (\<forall>old. find (\<lambda>t. task_id t = Some tid) (DB_getTasks st) = Some old \<longrightarrow>
      (\<exists>i new. i < length (DB_getTasks st) \<and> DB_getTasks st ! i = old \<and>
         consistent new \<and> completed new = (\<not> completed old) \<and>
         fst (DB_toggleTaskComplete clk tid st) = Some new \<and>
         (\<not> quota_exceeded st \<longrightarrow>
            DB_getTasks (snd (toggleTaskComplete clk tid st)) = (DB_getTasks st)[i := new]))) \<and>
   (find (\<lambda>t. task_id t = Some tid) (DB_getTasks st) = None \<longrightarrow>
      toggleTaskComplete clk tid st = (None, st)) \<and>
   ((\<forall>r\<in>set (DB_getTasks st). consistent r) \<longrightarrow>
      (\<forall>r\<in>set (DB_getTasks (snd (toggleTaskComplete clk tid st))). consistent r)) \<and>
   ((\<forall>r\<in>set (DB_getTasks st). consistent r) \<and> p_completed u = None \<and> p_completedAt u = None \<longrightarrow>
      (\<forall>r\<in>set (DB_getTasks (snd (updateTask clk tid u st))). consistent r)) \<and>
   (p_completed d = None \<and> p_completedAt d = None \<longrightarrow> consistent (Task clk d)) \<and>
   ((\<forall>r\<in>set (DB_getTasks st). consistent r) \<and> p_completed d = None \<and> p_completedAt d = None \<longrightarrow>
      (\<forall>r\<in>set (DB_getTasks (snd (createTask clk d st))). consistent r))"
proof -
  have 1: "consistent (toggleComplete clk t)" by (rule toggleComplete_consistent)
  have 2: "\<forall>r. fst (DB_toggleTaskComplete clk tid st) = Some r \<longrightarrow> consistent r"
    using DB_toggle_returns_consistent by blast
  have 3: "\<forall>t'. fst (toggleTaskComplete clk tid st) = Some t' \<and> nowISO clk \<noteq> [] \<longrightarrow> consistent t'"
  proof (intro allI impI)
    fix t' assume a: "fst (toggleTaskComplete clk tid st) = Some t' \<and> nowISO clk \<noteq> []"
    then obtain r where r: "fst (DB_toggleTaskComplete clk tid st) = Some r" "t' = fromJSON clk r"
      unfolding toggleTaskComplete_fst by auto
    have "completedAt r \<noteq> Some []" using DB_toggle_completedAt[OF r(1)] a by auto
    then show "consistent t'"
      unfolding r(2) using DB_toggle_returns_consistent[OF r(1)] by (rule fromJSON_consistent[rotated])
  qed
  have 4: "\<forall>old. find (\<lambda>t. task_id t = Some tid) (DB_getTasks st) = Some old \<longrightarrow>
      (\<exists>i new. i < length (DB_getTasks st) \<and> DB_getTasks st ! i = old \<and>
         consistent new \<and> completed new = (\<not> completed old) \<and>
         fst (DB_toggleTaskComplete clk tid st) = Some new \<and>
         (\<not> quota_exceeded st \<longrightarrow>
            DB_getTasks (snd (toggleTaskComplete clk tid st)) = (DB_getTasks st)[i := new]))"
  proof (intro allI impI)
    fix old assume f: "find (\<lambda>t. task_id t = Some tid) (DB_getTasks st) = Some old"
    from DB_toggle_found[OF f, of clk] obtain i new where n:
      "i < length (DB_getTasks st)" "DB_getTasks st ! i = old" "consistent new"
      "completed new = (\<not> completed old)"
      "DB_toggleTaskComplete clk tid st = (Some new, snd (DB_saveTasks ((DB_getTasks st)[i := new]) st))"
      by blast
    have a: "fst (DB_toggleTaskComplete clk tid st) = Some new" unfolding n(5) by simp
    have b: "\<not> quota_exceeded st \<longrightarrow>
        DB_getTasks (snd (toggleTaskComplete clk tid st)) = (DB_getTasks st)[i := new]"
      unfolding snd_toggleTaskComplete n(5) by (simp add: saveTasks_getTasks)
    show "\<exists>i new. i < length (DB_getTasks st) \<and> DB_getTasks st ! i = old \<and>
         consistent new \<and> completed new = (\<not> completed old) \<and>
         fst (DB_toggleTaskComplete clk tid st) = Some new \<and>
         (\<not> quota_exceeded st \<longrightarrow>
            DB_getTasks (snd (toggleTaskComplete clk tid st)) = (DB_getTasks st)[i := new])"
      using n(1-4) a b by blast
  qed
  have 5: "find (\<lambda>t. task_id t = Some tid) (DB_getTasks st) = None \<longrightarrow>
      toggleTaskComplete clk tid st = (None, st)"
    by (simp add: toggleTaskComplete_def DB_toggle_missing)
  have 6: "(\<forall>r\<in>set (DB_getTasks st). consistent r) \<longrightarrow>
      (\<forall>r\<in>set (DB_getTasks (snd (toggleTaskComplete clk tid st))). consistent r)"
    unfolding snd_toggleTaskComplete using toggle_keeps_consistent by blast
  have 7: "(\<forall>r\<in>set (DB_getTasks st). consistent r) \<and> p_completed u = None \<and> p_completedAt u = None \<longrightarrow>
      (\<forall>r\<in>set (DB_getTasks (snd (updateTask clk tid u st))). consistent r)"
    unfolding snd_updateTask using update_keeps_consistent by blast
  have 8: "p_completed d = None \<and> p_completedAt d = None \<longrightarrow> consistent (Task clk d)"
    using Task_consistent by blast
  have 9: "(\<forall>r\<in>set (DB_getTasks st). consistent r) \<and> p_completed d = None \<and> p_completedAt d = None \<longrightarrow>
      (\<forall>r\<in>set (DB_getTasks (snd (createTask clk d st))). consistent r)"
    using create_keeps_consistent by blast
  show ?thesis using 1 2 3 4 5 6 7 8 9 by blast
qed

text \<open>
  The collection with the single task ``Ship report'' is consistent and stays so under a
  toggle, an update of the title and a creation. The collection in which that task was
  marked completed by an update is not consistent; toggling the task there returns and
  stores a consistent task that is not completed.
\<close>

theorem completion_consistency_witness:
  "list_all consistent (DB_getTasks store1) \<and>
   p_completed retitle = None \<and> p_completedAt retitle = None \<and>
   consistent (toggleComplete clock0 (Task clock0 retitle)) \<and>
   consistent (Task clock0 retitle) \<and>
   list_all consistent (DB_getTasks (snd (toggleTaskComplete clock0 (freshId clock0) store1))) \<and>
   list_all consistent (DB_getTasks (snd (updateTask clock0 (freshId clock0) retitle store1))) \<and>
   list_all consistent (DB_getTasks (snd (createTask clock0 retitle store1))) \<and>
   map completed (DB_getTasks (snd (toggleTaskComplete clock0 (freshId clock0) store1))) = [True] \<and>
   map consistent (DB_getTasks marked_store) = [False] \<and>
   map_option completed (find (\<lambda>t. task_id t = Some (freshId clock0)) (DB_getTasks marked_store)) = Some True \<and>
   quota_exceeded marked_store = False \<and>
   nowISO clock1 = ''2024-10-04T11:00:00.000Z'' \<and>
   (\<exists>new. fst (DB_toggleTaskComplete clock1 (freshId clock0) marked_store) = Some new \<and>
      consistent new \<and> completed new = False \<and>
      DB_getTasks (snd (toggleTaskComplete clock1 (freshId clock0) marked_store)) = [new]) \<and>
   (\<exists>t'. fst (toggleTaskComplete clock1 (freshId clock0) marked_store) = Some t' \<and> consistent t')"
proof -
  have h1: "\<forall>r\<in>set (DB_getTasks store1). consistent r" by code_simp
  have h2: "p_completed retitle = None" by code_simp
  have h3: "p_completedAt retitle = None" by code_simp
  have h4: "map completed (DB_getTasks (snd (toggleTaskComplete clock0 (freshId clock0) store1))) = [True]"
    by code_simp
  have h5: "map consistent (DB_getTasks marked_store) = [False]" by code_simp
  have h6: "find (\<lambda>t. task_id t = Some (freshId clock0)) (DB_getTasks marked_store)
      = Some (hd (DB_getTasks marked_store))" by code_simp
  have h7: "completed (hd (DB_getTasks marked_store)) = True" by code_simp
  have h8: "\<not> quota_exceeded marked_store" by code_simp
  have h9: "length (DB_getTasks marked_store) = 1" by code_simp
  have h10: "nowISO clock1 = ''2024-10-04T11:00:00.000Z''" by code_simp
  have h11: "fst (toggleTaskComplete clock1 (freshId clock0) marked_store) \<noteq> None" by code_simp
  note a = completion_consistency_of_operations[of clock0 "Task clock0 retitle" "freshId clock0" store1 retitle retitle]
  note b = completion_consistency_of_operations[of clock1 "Task clock0 retitle" "freshId clock0" marked_store retitle retitle]
  from b h6 obtain i new where n: "i < length (DB_getTasks marked_store)"
    "consistent new" "completed new = (\<not> completed (hd (DB_getTasks marked_store)))"
    "fst (DB_toggleTaskComplete clock1 (freshId clock0) marked_store) = Some new"
    "\<not> quota_exceeded marked_store \<longrightarrow>
       DB_getTasks (snd (toggleTaskComplete clock1 (freshId clock0) marked_store))
         = (DB_getTasks marked_store)[i := new]"
    by blast
  have i0: "i = 0" using n(1) h9 by simp
  obtain x where x: "DB_getTasks marked_store = [x]"
    using h9 by (cases "DB_getTasks marked_store") auto
  have s: "DB_getTasks (snd (toggleTaskComplete clock1 (freshId clock0) marked_store)) = [new]"
    using n(5) h8 i0 x by simp
  have c1: "\<exists>new. fst (DB_toggleTaskComplete clock1 (freshId clock0) marked_store) = Some new \<and>
      consistent new \<and> completed new = False \<and>
      DB_getTasks (snd (toggleTaskComplete clock1 (freshId clock0) marked_store)) = [new]"
    using n(2,3,4) s h7 by auto
  obtain t' where t': "fst (toggleTaskComplete clock1 (freshId clock0) marked_store) = Some t'"
    using h11 by blast
  have "nowISO clock1 \<noteq> []" using h10 by simp
  then have "consistent t'" using b t' by blast
  then have c2: "\<exists>t'. fst (toggleTaskComplete clock1 (freshId clock0) marked_store) = Some t' \<and> consistent t'"
    using t' by blast
  have c3: "map_option completed (find (\<lambda>t. task_id t = Some (freshId clock0)) (DB_getTasks marked_store)) = Some True"
    using h6 h7 by simp
  have c4: "list_all consistent (DB_getTasks store1) \<and>
     consistent (toggleComplete clock0 (Task clock0 retitle)) \<and>
     consistent (Task clock0 retitle) \<and>
     list_all consistent (DB_getTasks (snd (toggleTaskComplete clock0 (freshId clock0) store1))) \<and>
     list_all consistent (DB_getTasks (snd (updateTask clock0 (freshId clock0) retitle store1))) \<and>
     list_all consistent (DB_getTasks (snd (createTask clock0 retitle store1)))"
    unfolding list_all_iff using a h1 h2 h3 by blast
  show ?thesis using c1 c2 c3 c4 h2 h3 h4 h5 h8 h10 by blast
qed

text \<open>
  Claim C1 as stated fails: \<^verbatim>\<open>updateTask(id, {completed: true})\<close> on that collection
  stores a task that is completed and has no completion time, and so does
  \<^verbatim>\<open>new Task({completed: true})\<close>.
\<close>

theorem completion_consistency_counterexample:
  "map completed (DB_getTasks (snd (updateTask clock0 (freshId clock0) mark_done store1))) = [True] \<and>
   map completedAt (DB_getTasks (snd (updateTask clock0 (freshId clock0) mark_done store1))) = [None] \<and>
   completed (Task clock0 mark_done) \<and> completedAt (Task clock0 mark_done) = None"
  by code_simp

subsection \<open>C2: removing a tag\<close>

lemma removeTag_fields:
  "tags (removeTag clk tag t) = filter (\<lambda>x. x \<noteq> tag) (tags t) \<and>
   updatedAt (removeTag clk tag t) = nowISO clk"
  by (simp add: removeTag_def)

text \<open>
  Claim C2 says that \<^verbatim>\<open>removeTag\<close> trims and lower-cases its argument before the
  membership test, as \<^verbatim>\<open>addTag\<close> does. The code compares the stored tags with the raw
  argument: on a task tagged ``work'', \<^verbatim>\<open>removeTag("Work")\<close> removes nothing, although
  ``Work'' normalises to ``work'', \<^verbatim>\<open>removeTag("work")\<close> removes the tag, and
  \<^verbatim>\<open>addTag("Work")\<close> finds the tag present. (The modification time is set in every
  case, lemma \<open>removeTag_fields\<close>.)
\<close>

theorem removeTag_compares_raw_argument:
  "tags tagged = [''work''] \<and>
   toLowerCase (trim ''Work'') = ''work'' \<and>
   tags (removeTag clock0 ''Work'' tagged) = [''work''] \<and>
   tags (removeTag clock0 (toLowerCase (trim ''Work'')) tagged) = [] \<and>
   tags (addTag clock0 ''Work'' tagged) = [''work'']"
  by code_simp

subsection \<open>C3: due this week\<close>

text \<open>
  Claim C3, as amended. \<^verbatim>\<open>isDueThisWeek\<close> is true exactly when the due date is set,
  parses, and lies between now and now plus seven days, both ends included: true for a
  task due at this very instant and at exactly seven days from now, false for any due
  instant in the past or more than seven days ahead.
\<close>

theorem isDueThisWeek_iff:
  "(isDueThisWeek clk t \<longleftrightarrow>
      (\<exists>s due. dueDate t = Some s \<and> s \<noteq> [] \<and> parseDate clk s = Some due \<and>
         0 \<le> due - nowMs clk \<and> due - nowMs clk \<le> oneWeek)) \<and>
   (dueDate t = Some s \<and> s \<noteq> [] \<and> parseDate clk s = Some due \<longrightarrow>
      (due = nowMs clk \<longrightarrow> isDueThisWeek clk t) \<and>
      (due = nowMs clk + oneWeek \<longrightarrow> isDueThisWeek clk t) \<and>
      (due < nowMs clk \<longrightarrow> \<not> isDueThisWeek clk t) \<and>
      (nowMs clk + oneWeek < due \<longrightarrow> \<not> isDueThisWeek clk t))"
  by (auto simp: isDueThisWeek_def oneWeek_def split: option.splits)

text \<open>
  On Friday 4 October 2024, 10:00 UTC: a task due at that instant and one due a week
  later to the millisecond are due this week; one due a millisecond after that, or a
  millisecond ago, is not.
\<close>

theorem isDueThisWeek_witness:
  "dueDate (due_at ''2024-10-04T10:00:00.000Z'') = Some ''2024-10-04T10:00:00.000Z'' \<and>
   parseDate clock0 ''2024-10-04T10:00:00.000Z'' = Some (nowMs clock0) \<and>
   isDueThisWeek clock0 (due_at ''2024-10-04T10:00:00.000Z'') \<and>
   parseDate clock0 ''2024-10-11T10:00:00.000Z'' = Some (nowMs clock0 + oneWeek) \<and>
   isDueThisWeek clock0 (due_at ''2024-10-11T10:00:00.000Z'') \<and>
   parseDate clock0 ''2024-10-11T10:00:00.001Z'' = Some (nowMs clock0 + oneWeek + 1) \<and>
   isDueThisWeek clock0 (due_at ''2024-10-11T10:00:00.001Z'') = False \<and>
   parseDate clock0 ''2024-10-04T09:59:59.999Z'' = Some (nowMs clock0 - 1) \<and>
   isDueThisWeek clock0 (due_at ''2024-10-04T09:59:59.999Z'') = False"
proof -
  have d: "\<And>s. dueDate (due_at s) = (if s = [] then None else Some s)"
    by (simp add: due_at_def Task_def or_null_str_def)
  have p1: "parseDate clock0 ''2024-10-04T10:00:00.000Z'' = Some (nowMs clock0)" by code_simp
  have p2: "parseDate clock0 ''2024-10-11T10:00:00.000Z'' = Some (nowMs clock0 + oneWeek)" by code_simp
  have p3: "parseDate clock0 ''2024-10-11T10:00:00.001Z'' = Some (nowMs clock0 + oneWeek + 1)" by code_simp
  have p4: "parseDate clock0 ''2024-10-04T09:59:59.999Z'' = Some (nowMs clock0 - 1)" by code_simp
  show ?thesis
    using p1 p2 p3 p4
      isDueThisWeek_iff[of clock0 "due_at ''2024-10-04T10:00:00.000Z''" "''2024-10-04T10:00:00.000Z''" "nowMs clock0"]
      isDueThisWeek_iff[of clock0 "due_at ''2024-10-11T10:00:00.000Z''" "''2024-10-11T10:00:00.000Z''" "nowMs clock0 + oneWeek"]
      isDueThisWeek_iff[of clock0 "due_at ''2024-10-11T10:00:00.001Z''" "''2024-10-11T10:00:00.001Z''" "nowMs clock0 + oneWeek + 1"]
      isDueThisWeek_iff[of clock0 "due_at ''2024-10-04T09:59:59.999Z''" "''2024-10-04T09:59:59.999Z''" "nowMs clock0 - 1"]
    by (simp add: d oneWeek_def)
qed

text \<open>
  Claim C3 as stated fails for ``a task due today'': at 10:00 UTC a task whose due date
  is that day (a date input's \<^verbatim>\<open>2024-10-04\<close>, midnight UTC) is due today, and is not
  due this week, its due instant being ten hours in the past.
\<close>

theorem due_today_not_this_week_counterexample:
  "dueDate (due_at ''2024-10-04'') = Some ''2024-10-04'' \<and>
   isDueToday clock0 (due_at ''2024-10-04'') \<and>
   isDueThisWeek clock0 (due_at ''2024-10-04'') = False"
  by code_simp

subsection \<open>Filtering\<close>

lemma by_completed_eq: "by_completed f ts = filter (wants_completed f) ts"
  by (simp add: by_completed_def wants_completed_def[abs_def] split: option.splits)

lemma by_priority_eq: "by_priority f ts = filter (wants_priority f) ts"
  by (simp add: by_priority_def wants_priority_def[abs_def] split: option.splits)

lemma by_dueFilter_eq: "by_dueFilter clk f ts = filter (wants_due clk f) ts"
  by (simp add: by_dueFilter_def wants_due_def[abs_def] split: option.splits)

lemma by_tags_eq: "by_tags f ts = filter (wants_tags f) ts"
  by (simp add: by_tags_def wants_tags_def[abs_def] list_ex_iff split: option.splits)

lemma by_search_eq: "by_search f ts = filter (wants_search f) ts"
  by (simp add: by_search_def wants_search_def[abs_def] matches_search_def Let_def split: option.splits)

lemma getFilteredTasks_filter:
  "getFilteredTasks clk f st =
     filter (\<lambda>t. wants_completed f t \<and> wants_priority f t \<and> wants_due clk f t \<and>
                 wants_tags f t \<and> wants_search f t) (getAllTasks clk st)"
  unfolding getFilteredTasks_def by_completed_eq by_priority_eq by_dueFilter_eq by_tags_eq
    by_search_eq filter_filter
  by (rule filter_cong) auto

subsection \<open>C4: filter categories\<close>

text \<open>
  Claim C4. \<^verbatim>\<open>getFilteredTasks\<close> returns, in stored order, exactly the tasks that
  satisfy every category of the filter (conjunction across categories); a non-empty
  \<^verbatim>\<open>tags\<close> list is satisfied by a task having at least one of its tags (disjunction
  within the list); and \<^verbatim>\<open>{priority: "high", tags: ["work"]}\<close> returns exactly the
  tasks with priority ``high'' that carry the tag ``work''.
\<close>

theorem getFilteredTasks_conjunction:
  "getFilteredTasks clk f st =
     filter (\<lambda>t. wants_completed f t \<and> wants_priority f t \<and> wants_due clk f t \<and>
                 wants_tags f t \<and> wants_search f t) (getAllTasks clk st) \<and>
   (wants_tags (f\<lparr>f_tags := Some (x # xs)\<rparr>) t \<longleftrightarrow> (\<exists>tag\<in>set (x # xs). tag \<in> set (tags t))) \<and>
   getFilteredTasks clk high_work st =
     filter (\<lambda>t. priority t = ''high'' \<and> ''work'' \<in> set (tags t)) (getAllTasks clk st)"
proof -
  have "getFilteredTasks clk high_work st =
     filter (\<lambda>t. priority t = ''high'' \<and> ''work'' \<in> set (tags t)) (getAllTasks clk st)"
    unfolding getFilteredTasks_filter
    by (rule filter_cong)
      (simp_all add: high_work_def no_filters_def wants_completed_def wants_priority_def
        wants_due_def wants_tags_def wants_search_def)
  moreover have "wants_tags (f\<lparr>f_tags := Some (x # xs)\<rparr>) t \<longleftrightarrow>
      (\<exists>tag\<in>set (x # xs). tag \<in> set (tags t))"
    by (simp add: wants_tags_def)
  ultimately show ?thesis using getFilteredTasks_filter by blast
qed

subsection \<open>C7: deleting an unknown identifier\<close>

text \<open>
  Claim C7. When no stored task has the identifier, \<^verbatim>\<open>deleteTask\<close> (of the service
  and of \<^verbatim>\<open>DB\<close>) returns \<^verbatim>\<open>false\<close> and leaves the storage as it was; it returns
  a value on every storage, whatever the storage holds, so no exception leaves it.
\<close>

theorem delete_unknown_identifier:
  assumes "\<forall>t\<in>set (DB_getTasks st). task_id t \<noteq> Some tid"
  shows "deleteTask tid st = (False, st) \<and> DB_deleteTask tid st = (False, st) \<and>
         DB_getTasks (snd (deleteTask tid st)) = DB_getTasks st"
proof -
  have "filter (\<lambda>t. task_id t \<noteq> Some tid) (DB_getTasks st) = DB_getTasks st"
    using assms by (simp add: filter_id_conv)
  then have "DB_deleteTask tid st = (False, st)"
    by (simp add: DB_deleteTask_def Let_def)
  then show ?thesis by (simp add: deleteTask_def)
qed

text \<open>The collection with the single task ``Ship report'' and an identifier it lacks.\<close>

theorem delete_unknown_identifier_witness:
  "list_all (\<lambda>t. task_id t \<noteq> Some ''task_unknown'') (DB_getTasks store1) \<and>
   length (DB_getTasks store1) = 1 \<and>
   deleteTask ''task_unknown'' store1 = (False, store1) \<and>
   DB_deleteTask ''task_unknown'' store1 = (False, store1) \<and>
   DB_getTasks (snd (deleteTask ''task_unknown'' store1)) = DB_getTasks store1"
proof -
  have h: "\<forall>t\<in>set (DB_getTasks store1). task_id t \<noteq> Some ''task_unknown''" by code_simp
  have l: "length (DB_getTasks store1) = 1" by code_simp
  show ?thesis using h l delete_unknown_identifier[OF h] unfolding list_all_iff by simp
qed

subsection \<open>C8: export and import\<close>

text \<open>
  Claim C8. Importing the text that \<^verbatim>\<open>exportData\<close> produced succeeds; into the
  storage it was exported from it leaves the task collection as it was, and into any
  storage that accepts the write it reproduces the exported task collection (the same
  task objects in the same order) and the exported settings.
\<close>

theorem export_import_roundtrip:
  "fst (DB_importData (DB_exportData clk st) st') = True \<and>
   DB_getTasks (snd (DB_importData (DB_exportData clk st) st)) = DB_getTasks st \<and>
   (\<not> quota_exceeded st' \<longrightarrow>
      DB_getTasks (snd (DB_importData (DB_exportData clk st) st')) = DB_getTasks st \<and>
      DB_getSettings (snd (DB_importData (DB_exportData clk st) st')) = DB_getSettings st)"
  by (simp add: DB_importData_def DB_exportData_def JSON_parse_def JSON_stringify_def Let_def
      DB_saveTasks_def DB_saveSettings_def DB_getTasks_def DB_getSettings_def)

text \<open>Exporting the one-task collection and importing it into an empty storage.\<close>

theorem export_import_roundtrip_witness:
  "quota_exceeded empty_storage = False \<and>
   DB_getTasks empty_storage = [] \<and>
   map title (DB_getTasks store1) = [''Ship report''] \<and>
   fst (DB_importData (DB_exportData clock0 store1) empty_storage) = True \<and>
   DB_getTasks (snd (DB_importData (DB_exportData clock0 store1) empty_storage)) = DB_getTasks store1 \<and>
   DB_getSettings (snd (DB_importData (DB_exportData clock0 store1) empty_storage)) = DB_getSettings store1"
proof -
  have q: "quota_exceeded empty_storage = False" by (simp add: empty_storage_def)
  have e: "DB_getTasks empty_storage = []" by (simp add: empty_storage_def DB_getTasks_def)
  have t: "map title (DB_getTasks store1) = [''Ship report'']" by code_simp
  show ?thesis using q e t export_import_roundtrip[of clock0 store1 empty_storage] by simp
qed

subsection \<open>Sorting\<close>

lemma count_run_le: "count_run cmp d p xs = Inr n \<Longrightarrow> n \<le> length xs"
proof (induction xs arbitrary: p n)
  case Nil
  then show ?case by simp
next
  case (Cons x xs)
  from Cons.prems obtain c where c: "cmp x p = Inr c" by (cases "cmp x p") auto
  show ?case
  proof (cases "if d then c \<ge> 0 else c < 0")
    case True
    then have "n = 0" using Cons.prems c by (auto split: if_splits)
    then show ?thesis by simp
  next
    case False
    then obtain m where m: "count_run cmp d x xs = Inr m" "n = Suc m"
      using Cons.prems c by (cases "count_run cmp d x xs") (auto split: if_splits)
    show ?thesis using Cons.IH[OF m(1)] m(2) by simp
  qed
qed

lemma count_run_Inl:
  "count_run cmp d p xs = Inl e \<Longrightarrow> \<exists>a\<in>set (p # xs). \<exists>b\<in>set (p # xs). cmp a b = Inl e"
proof (induction xs arbitrary: p)
  case Nil
  then show ?case by simp
next
  case (Cons x xs)
  show ?case
  proof (cases "cmp x p")
    case (Inl e')
    then have "cmp x p = Inl e" using Cons.prems by simp
    then show ?thesis by auto
  next
    case (Inr c)
    then have "count_run cmp d x xs = Inl e"
      using Cons.prems by (cases "count_run cmp d x xs") (auto split: if_splits)
    from Cons.IH[OF this] show ?thesis by auto
  qed
qed

lemma countAndMakeRun_cases:
  assumes "countAndMakeRun cmp xs = Inr (ys, r)"
  shows "r \<le> length xs \<and> (xs \<noteq> [] \<longrightarrow> 0 < r) \<and> drop r ys = drop r xs \<and>
         (take r ys = take r xs \<or> take r ys = rev (take r xs))"
proof (cases xs)
  case Nil
  then show ?thesis using assms by auto
next
  case (Cons h t)
  show ?thesis
  proof (cases t)
    case Nil
    then show ?thesis using assms Cons by auto
  next
    case (Cons l rest)
    note xs = \<open>xs = h # t\<close> Cons
    from assms obtain c where c: "cmp l h = Inr c"
      unfolding xs by (cases "cmp l h") auto
    from assms c obtain n where n: "count_run cmp (c < 0) l rest = Inr n"
      unfolding xs by (cases "count_run cmp (c < 0) l rest") auto
    have r: "r = 2 + n" and ys: "ys = (if c < 0 then rev (take (2 + n) xs) @ drop (2 + n) xs else xs)"
      using assms c n unfolding xs by auto
    have le: "r \<le> length xs" using count_run_le[OF n] r xs by simp
    have "drop r ys = drop r xs" using ys r le by simp
    moreover have "take r ys = take r xs \<or> take r ys = rev (take r xs)"
      using ys r le by auto
    ultimately show ?thesis using le r xs by simp
  qed
qed

lemma countAndMakeRun_Inl:
  assumes "countAndMakeRun cmp xs = Inl e"
  shows "\<exists>a\<in>set xs. \<exists>b\<in>set xs. cmp a b = Inl e"
proof (cases xs)
  case Nil
  then show ?thesis using assms by auto
next
  case (Cons h t)
  show ?thesis
  proof (cases t)
    case Nil
    then show ?thesis using assms Cons by auto
  next
    case (Cons l rest)
    note xs = \<open>xs = h # t\<close> Cons
    show ?thesis
    proof (cases "cmp l h")
      case (Inl e')
      then have "cmp l h = Inl e" using assms unfolding xs by simp
      then show ?thesis unfolding xs by auto
    next
      case (Inr c)
      then have "count_run cmp (c < 0) l rest = Inl e"
        using assms unfolding xs by (cases "count_run cmp (c < 0) l rest") auto
      from count_run_Inl[OF this] show ?thesis unfolding xs by auto
    qed
  qed
qed

lemma binary_search_bounds:
  "left \<le> right \<Longrightarrow> binary_search cmp pivot xs left right = Inr k \<Longrightarrow> left \<le> k \<and> k \<le> right"
proof (induction cmp pivot xs left right rule: binary_search.induct)
  case (1 cmp pivot xs left right)
  show ?case
  proof (cases "left < right")
    case False
    then show ?thesis using "1.prems" by (simp add: binary_search.simps)
  next
    case True
    let ?mid = "left + (right - left) div 2"
    have mid: "left \<le> ?mid" "?mid < right" using True by auto
    from "1.prems"(2) True obtain c where c: "cmp pivot (xs ! ?mid) = Inr c"
      by (cases "cmp pivot (xs ! ?mid)") (auto simp: binary_search.simps[of cmp pivot xs left right] Let_def)
    show ?thesis
    proof (cases "c < 0")
      case True
      then have "binary_search cmp pivot xs left ?mid = Inr k"
        using "1.prems"(2) \<open>left < right\<close> c
        by (simp add: binary_search.simps[of cmp pivot xs left right] Let_def)
      from "1.IH"(1)[OF \<open>left < right\<close> refl c True mid(1) this] show ?thesis using mid by simp
    next
      case False
      then have "binary_search cmp pivot xs (?mid + 1) right = Inr k"
        using "1.prems"(2) \<open>left < right\<close> c
        by (simp add: binary_search.simps[of cmp pivot xs left right] Let_def)
      from "1.IH"(2)[OF \<open>left < right\<close> refl c False _ this] show ?thesis using mid by simp
    qed
  qed
qed

lemma binary_search_Inl:
  "right \<le> length xs \<Longrightarrow> binary_search cmp pivot xs left right = Inl e \<Longrightarrow>
   \<exists>b\<in>set xs. cmp pivot b = Inl e"
proof (induction cmp pivot xs left right rule: binary_search.induct)
  case (1 cmp pivot xs left right)
  have lr: "left < right"
    using "1.prems"(2) by (cases "left < right") (simp_all add: binary_search.simps[of cmp pivot xs left right])
  let ?mid = "left + (right - left) div 2"
  have mid: "left \<le> ?mid" "?mid < right" using lr by auto
  have inb: "xs ! ?mid \<in> set xs" using mid "1.prems"(1) by simp
  show ?case
  proof (cases "cmp pivot (xs ! ?mid)")
    case (Inl e')
    then have "cmp pivot (xs ! ?mid) = Inl e"
      using "1.prems"(2) lr by (simp add: binary_search.simps[of cmp pivot xs left right] Let_def)
    then show ?thesis using inb by blast
  next
    case (Inr c)
    show ?thesis
    proof (cases "c < 0")
      case True
      then have "binary_search cmp pivot xs left ?mid = Inl e"
        using "1.prems"(2) lr Inr
        by (simp add: binary_search.simps[of cmp pivot xs left right] Let_def)
      moreover have "?mid \<le> length xs" using mid "1.prems"(1) by simp
      ultimately show ?thesis using "1.IH"(1)[OF lr refl Inr True] by blast
    next
      case False
      then have "binary_search cmp pivot xs (?mid + 1) right = Inl e"
        using "1.prems"(2) lr Inr
        by (simp add: binary_search.simps[of cmp pivot xs left right] Let_def)
      then show ?thesis using "1.IH"(2)[OF lr refl Inr False "1.prems"(1)] by blast
    qed
  qed
qed

lemma set_insert_at: "set (take k xs @ p # drop k xs) = insert p (set xs)"
proof -
  have "set (take k xs @ p # drop k xs) = insert p (set (take k xs) \<union> set (drop k xs))"
    by simp
  also have "set (take k xs) \<union> set (drop k xs) = set xs"
    by (metis append_take_drop_id set_append)
  finally show ?thesis .
qed

lemma binaryInsertionSort_set:
  "binaryInsertionSort cmp sp rest = Inr out \<Longrightarrow>
   set out = set sp \<union> set rest \<and> length out = length sp + length rest"
proof (induction rest arbitrary: sp)
  case Nil
  then show ?case by simp
next
  case (Cons p rest)
  from Cons.prems obtain k where k: "binary_search cmp p sp 0 (length sp) = Inr k"
    by (cases "binary_search cmp p sp 0 (length sp)") auto
  then have r: "binaryInsertionSort cmp (take k sp @ p # drop k sp) rest = Inr out"
    using Cons.prems by simp
  have kl: "k \<le> length sp" using binary_search_bounds[OF _ k] by simp
  have "set (take k sp @ p # drop k sp) = insert p (set sp)" by (rule set_insert_at)
  moreover have "length (take k sp @ p # drop k sp) = Suc (length sp)" using kl by simp
  ultimately show ?case using Cons.IH[OF r] by auto
qed

lemma binaryInsertionSort_Inl:
  "binaryInsertionSort cmp sp rest = Inl e \<Longrightarrow>
   \<exists>a\<in>set rest. \<exists>b\<in>set sp \<union> set rest. cmp a b = Inl e"
proof (induction rest arbitrary: sp)
  case Nil
  then show ?case by simp
next
  case (Cons p rest)
  show ?case
  proof (cases "binary_search cmp p sp 0 (length sp)")
    case (Inl e')
    then have "binary_search cmp p sp 0 (length sp) = Inl e" using Cons.prems by simp
    from binary_search_Inl[OF _ this] show ?thesis by auto
  next
    case (Inr k)
    then have r: "binaryInsertionSort cmp (take k sp @ p # drop k sp) rest = Inl e"
      using Cons.prems by simp
    have "set (take k sp @ p # drop k sp) = insert p (set sp)" by (rule set_insert_at)
    with Cons.IH[OF r] show ?thesis by auto
  qed
qed

lemma array_sort_set: "array_sort cmp xs = Inr zs \<Longrightarrow> set zs = set xs"
proof (cases "length xs < 2")
  case True
  assume "array_sort cmp xs = Inr zs"
  then show ?thesis using True by (simp add: array_sort_def)
next
  case False
  assume a: "array_sort cmp xs = Inr zs"
  then obtain ys r where m: "countAndMakeRun cmp xs = Inr (ys, r)"
    using False by (cases "countAndMakeRun cmp xs") (auto simp: array_sort_def)
  then have b: "binaryInsertionSort cmp (take r ys) (drop r ys) = Inr zs"
    using a False by (simp add: array_sort_def)
  note c = countAndMakeRun_cases[OF m]
  have "set (take r ys) = set (take r xs)" using c by auto
  then have "set (take r ys) \<union> set (drop r ys) = set (take r xs) \<union> set (drop r xs)"
    using c by simp
  also have "\<dots> = set xs" by (metis append_take_drop_id set_append)
  finally show ?thesis using binaryInsertionSort_set[OF b] by simp
qed

lemma array_sort_length: "array_sort cmp xs = Inr zs \<Longrightarrow> length zs = length xs"
proof (cases "length xs < 2")
  case True
  assume "array_sort cmp xs = Inr zs"
  then show ?thesis using True by (simp add: array_sort_def)
next
  case False
  assume a: "array_sort cmp xs = Inr zs"
  then obtain ys r where m: "countAndMakeRun cmp xs = Inr (ys, r)"
    using False by (cases "countAndMakeRun cmp xs") (auto simp: array_sort_def)
  then have b: "binaryInsertionSort cmp (take r ys) (drop r ys) = Inr zs"
    using a False by (simp add: array_sort_def)
  note c = countAndMakeRun_cases[OF m]
  have "length (take r ys) = length (take r xs)" using c by (metis length_rev)
  moreover have "length (drop r ys) = length (drop r xs)" using c by simp
  ultimately have "length (take r ys) + length (drop r ys) = length xs" by simp
  then show ?thesis using binaryInsertionSort_set[OF b] by simp
qed

lemma array_sort_Inl:
  assumes "array_sort cmp xs = Inl e"
  shows "\<exists>a\<in>set xs. \<exists>b\<in>set xs. cmp a b = Inl e"
proof -
  have l: "\<not> length xs < 2" using assms by (cases "length xs < 2") (simp_all add: array_sort_def)
  show ?thesis
  proof (cases "countAndMakeRun cmp xs")
    case (Inl e')
    then have "countAndMakeRun cmp xs = Inl e" using assms l by (simp add: array_sort_def)
    then show ?thesis by (rule countAndMakeRun_Inl)
  next
    case (Inr p)
    obtain ys r where p: "p = (ys, r)" by (cases p)
    have b: "binaryInsertionSort cmp (take r ys) (drop r ys) = Inl e"
      using assms l Inr p by (simp add: array_sort_def)
    note c = countAndMakeRun_cases[OF Inr[unfolded p]]
    have "set (take r ys) = set (take r xs)" using c by auto
    then have "set (take r ys) \<union> set (drop r ys) = set (take r xs) \<union> set (drop r xs)"
      using c by simp
    also have "\<dots> = set xs" by (metis append_take_drop_id set_append)
    finally have s: "set (take r ys) \<union> set (drop r ys) = set xs" .
    from binaryInsertionSort_Inl[OF b] obtain a b where
      "a \<in> set (drop r ys)" "b \<in> set (take r ys) \<union> set (drop r ys)" "cmp a b = Inl e"
      by blast
    then show ?thesis using s by blast
  qed
qed

lemma strict_total_facts:
  assumes "strict_total lt"
  shows "\<not> lt x x"
    and "lt x y \<Longrightarrow> lt y z \<Longrightarrow> lt x z"
    and "lt x y \<Longrightarrow> \<not> lt y x"
    and "\<not> lt y x \<Longrightarrow> \<not> lt z y \<Longrightarrow> \<not> lt z x"
    and "lt x y \<Longrightarrow> \<not> lt z y \<Longrightarrow> lt x z"
    and "\<not> lt y x \<Longrightarrow> lt y z \<Longrightarrow> lt x z"
    and "\<not> lt x y \<Longrightarrow> \<not> lt y x \<Longrightarrow> x = y"
proof -
  have i: "\<And>x. \<not> lt x x" and t: "\<And>x y z. lt x y \<Longrightarrow> lt y z \<Longrightarrow> lt x z"
    and c: "\<And>x y. x \<noteq> y \<Longrightarrow> lt x y \<or> lt y x"
    using assms unfolding strict_total_def by blast+
  show "\<not> lt x x" by (rule i)
  show "lt x y \<Longrightarrow> lt y z \<Longrightarrow> lt x z" by (rule t)
  show "lt x y \<Longrightarrow> \<not> lt y x" using i t by blast
  show "\<not> lt y x \<Longrightarrow> \<not> lt z y \<Longrightarrow> \<not> lt z x" using i t c by metis
  show "lt x y \<Longrightarrow> \<not> lt z y \<Longrightarrow> lt x z" using i t c by metis
  show "\<not> lt y x \<Longrightarrow> lt y z \<Longrightarrow> lt x z" using i t c by metis
  show "\<not> lt x y \<Longrightarrow> \<not> lt y x \<Longrightarrow> x = y" using c by blast
qed

lemma compares_by_sign:
  assumes "strict_total lt" "compares_by cmp f lt S" "a \<in> S" "b \<in> S"
  shows "\<exists>c. cmp a b = Inr c \<and> (c < 0) = lt (f a) (f b) \<and> (c \<le> 0) = (\<not> lt (f b) (f a)) \<and>
           (c = 0) = (f a = f b)"
proof -
  have e: "cmp a b = Inr (if lt (f a) (f b) then - 1 else if lt (f b) (f a) then 1 else 0)"
    using assms(2,3,4) unfolding compares_by_def by blast
  note o = strict_total_facts[OF assms(1)]
  show ?thesis
  proof (cases "lt (f a) (f b)")
    case True
    then have "\<not> lt (f b) (f a)" "f a \<noteq> f b" using o(1,3) by metis+
    then show ?thesis using e True by simp
  next
    case False
    show ?thesis
    proof (cases "lt (f b) (f a)")
      case True
      then have "f a \<noteq> f b" using o(1) by metis
      then show ?thesis using e False True by simp
    next
      case F2: False
      then have "f a = f b" using False o(7) by metis
      then show ?thesis using e False F2 by simp
    qed
  qed
qed

lemma count_run_asc:
  assumes "strict_total lt" "compares_by cmp f lt S"
  shows "set (p # xs) \<subseteq> S \<Longrightarrow> count_run cmp False p xs = Inr n \<Longrightarrow>
         sorted_wrt (\<lambda>a b. \<not> lt (f b) (f a)) (p # take n xs)"
proof (induction xs arbitrary: p n)
  case Nil
  then show ?case by simp
next
  case (Cons x xs)
  have xS: "x \<in> S" and pS: "p \<in> S" using Cons.prems(1) by auto
  from compares_by_sign[OF assms xS pS] obtain c where
    c: "cmp x p = Inr c" "(c < 0) = lt (f x) (f p)" by blast
  show ?case
  proof (cases "c < 0")
    case True
    then have "n = 0" using Cons.prems(2) c(1) by simp
    then show ?thesis by simp
  next
    case False
    then obtain m where m: "count_run cmp False x xs = Inr m" "n = Suc m"
      using Cons.prems(2) c(1) by (cases "count_run cmp False x xs") auto
    have "set (x # xs) \<subseteq> S" using Cons.prems(1) by auto
    from Cons.IH[OF this m(1)] have ih: "sorted_wrt (\<lambda>a b. \<not> lt (f b) (f a)) (x # take m xs)" .
    have px: "\<not> lt (f x) (f p)" using False c(2) by simp
    have "\<forall>y\<in>set (x # take m xs). \<not> lt (f y) (f p)"
    proof
      fix y assume "y \<in> set (x # take m xs)"
      then have "y = x \<or> \<not> lt (f y) (f x)" using ih by auto
      then show "\<not> lt (f y) (f p)" using px strict_total_facts(4)[OF assms(1)] by metis
    qed
    then show ?thesis using ih m(2) by simp
  qed
qed

lemma count_run_desc:
  assumes "strict_total lt" "compares_by cmp f lt S"
  shows "set (p # xs) \<subseteq> S \<Longrightarrow> count_run cmp True p xs = Inr n \<Longrightarrow>
         sorted_wrt (\<lambda>a b. lt (f b) (f a)) (p # take n xs)"
proof (induction xs arbitrary: p n)
  case Nil
  then show ?case by simp
next
  case (Cons x xs)
  have xS: "x \<in> S" and pS: "p \<in> S" using Cons.prems(1) by auto
  from compares_by_sign[OF assms xS pS] obtain c where
    c: "cmp x p = Inr c" "(c < 0) = lt (f x) (f p)" by blast
  show ?case
  proof (cases "c < 0")
    case False
    then have "n = 0" using Cons.prems(2) c(1) by simp
    then show ?thesis by simp
  next
    case True
    then obtain m where m: "count_run cmp True x xs = Inr m" "n = Suc m"
      using Cons.prems(2) c(1) by (cases "count_run cmp True x xs") auto
    have "set (x # xs) \<subseteq> S" using Cons.prems(1) by auto
    from Cons.IH[OF this m(1)] have ih: "sorted_wrt (\<lambda>a b. lt (f b) (f a)) (x # take m xs)" .
    have px: "lt (f x) (f p)" using True c(2) by simp
    have "\<forall>y\<in>set (x # take m xs). lt (f y) (f p)"
    proof
      fix y assume "y \<in> set (x # take m xs)"
      then have "y = x \<or> lt (f y) (f x)" using ih by auto
      then show "lt (f y) (f p)" using px strict_total_facts(2)[OF assms(1)] by metis
    qed
    then show ?thesis using ih m(2) by simp
  qed
qed

lemma strictly_descending_filter:
  assumes "strict_total lt"
  shows "sorted_wrt (\<lambda>a b. lt (f b) (f a)) xs \<Longrightarrow> length (filter (\<lambda>t. f t = k) xs) \<le> 1"
proof (induction xs)
  case Nil
  then show ?case by simp
next
  case (Cons x xs)
  then have ih: "length (filter (\<lambda>t. f t = k) xs) \<le> 1" by simp
  show ?case
  proof (cases "f x = k")
    case False
    then show ?thesis using ih by simp
  next
    case True
    have "\<forall>y\<in>set xs. f y \<noteq> k"
      using Cons.prems True strict_total_facts(1)[OF assms] by (metis sorted_wrt.simps(2))
    then have "filter (\<lambda>t. f t = k) xs = []" by (simp add: filter_empty_conv)
    then show ?thesis using True by simp
  qed
qed

lemma rev_short: "length xs \<le> 1 \<Longrightarrow> rev xs = xs"
  by (cases xs) auto

lemma strictly_descending_rev:
  assumes "strict_total lt" "sorted_wrt (\<lambda>a b. lt (f b) (f a)) xs"
  shows "sorted_wrt (\<lambda>a b. \<not> lt (f b) (f a)) (rev xs) \<and>
         filter (\<lambda>t. f t = k) (rev xs) = filter (\<lambda>t. f t = k) xs"
proof -
  have "sorted_wrt (\<lambda>a b. \<not> lt (f a) (f b)) xs"
    using assms(2) strict_total_facts(3)[OF assms(1)]
    by (rule_tac sorted_wrt_mono_rel[where P = "\<lambda>a b. lt (f b) (f a)"]) auto
  then have 1: "sorted_wrt (\<lambda>a b. \<not> lt (f b) (f a)) (rev xs)"
    by (simp add: sorted_wrt_rev)
  have "filter (\<lambda>t. f t = k) (rev xs) = rev (filter (\<lambda>t. f t = k) xs)"
    by (simp add: rev_filter)
  also have "\<dots> = filter (\<lambda>t. f t = k) xs"
    by (rule rev_short) (rule strictly_descending_filter[OF assms])
  finally show ?thesis using 1 by simp
qed

lemma countAndMakeRun_sorted:
  assumes "strict_total lt" "compares_by cmp f lt S" "set xs \<subseteq> S"
    and "countAndMakeRun cmp xs = Inr (ys, r)"
  shows "sorted_wrt (\<lambda>a b. \<not> lt (f b) (f a)) (take r ys) \<and>
         filter (\<lambda>t. f t = k) (take r ys) = filter (\<lambda>t. f t = k) (take r xs)"
proof (cases xs)
  case Nil
  then show ?thesis using assms(4) by auto
next
  case (Cons h t)
  show ?thesis
  proof (cases t)
    case Nil
    then show ?thesis using assms(4) Cons by auto
  next
    case (Cons l rest)
    note xs = \<open>xs = h # t\<close> Cons
    have hS: "h \<in> S" and lS: "l \<in> S" and rS: "set (l # rest) \<subseteq> S"
      using assms(3) unfolding xs by auto
    from compares_by_sign[OF assms(1,2) lS hS] obtain c where
      c: "cmp l h = Inr c" "(c < 0) = lt (f l) (f h)" by blast
    from assms(4) c obtain n where n: "count_run cmp (c < 0) l rest = Inr n"
      unfolding xs by (cases "count_run cmp (c < 0) l rest") auto
    have r: "r = 2 + n" and ys: "ys = (if c < 0 then rev (take (2 + n) xs) @ drop (2 + n) xs else xs)"
      using assms(4) c n unfolding xs by auto
    have le: "r \<le> length xs" using count_run_le[OF n] r xs by simp
    have tk: "take r xs = h # l # take n rest" unfolding r xs by simp
    show ?thesis
    proof (cases "c < 0")
      case True
      have d: "sorted_wrt (\<lambda>a b. lt (f b) (f a)) (l # take n rest)"
        using count_run_desc[OF assms(1,2) rS] n True by simp
      have "\<forall>y\<in>set (l # take n rest). lt (f y) (f h)"
      proof
        fix y assume "y \<in> set (l # take n rest)"
        then have "y = l \<or> lt (f y) (f l)" using d by auto
        then show "lt (f y) (f h)" using c(2) True strict_total_facts(2)[OF assms(1)] by metis
      qed
      then have "sorted_wrt (\<lambda>a b. lt (f b) (f a)) (take r xs)" unfolding tk using d by simp
      from strictly_descending_rev[OF assms(1) this]
      have "sorted_wrt (\<lambda>a b. \<not> lt (f b) (f a)) (rev (take r xs)) \<and>
         filter (\<lambda>t. f t = k) (rev (take r xs)) = filter (\<lambda>t. f t = k) (take r xs)" .
      moreover have "take r ys = rev (take r xs)" using ys True r le by simp
      ultimately show ?thesis by simp
    next
      case False
      have a: "sorted_wrt (\<lambda>a b. \<not> lt (f b) (f a)) (l # take n rest)"
        using count_run_asc[OF assms(1,2) rS] n False by simp
      have hl: "\<not> lt (f l) (f h)" using c(2) False by simp
      have "\<forall>y\<in>set (l # take n rest). \<not> lt (f y) (f h)"
      proof
        fix y assume "y \<in> set (l # take n rest)"
        then have "y = l \<or> \<not> lt (f y) (f l)" using a by auto
        then show "\<not> lt (f y) (f h)" using hl strict_total_facts(4)[OF assms(1)] by metis
      qed
      then have "sorted_wrt (\<lambda>a b. \<not> lt (f b) (f a)) (take r xs)" unfolding tk using a by simp
      moreover have "ys = xs" using ys False by simp
      ultimately show ?thesis by simp
    qed
  qed
qed

lemma binary_search_place:
  "strict_total lt \<Longrightarrow> compares_by cmp f lt S \<Longrightarrow>
   sorted_wrt (\<lambda>a b. \<not> lt (f b) (f a)) xs \<Longrightarrow> insert pivot (set xs) \<subseteq> S \<Longrightarrow>
   left \<le> right \<Longrightarrow> right \<le> length xs \<Longrightarrow>
   (\<forall>i<left. \<not> lt (f pivot) (f (xs ! i))) \<Longrightarrow>
   (\<forall>i. right \<le> i \<and> i < length xs \<longrightarrow> lt (f pivot) (f (xs ! i))) \<Longrightarrow>
   binary_search cmp pivot xs left right = Inr k \<Longrightarrow>
   k \<le> length xs \<and> (\<forall>i<k. \<not> lt (f pivot) (f (xs ! i))) \<and>
   (\<forall>i. k \<le> i \<and> i < length xs \<longrightarrow> lt (f pivot) (f (xs ! i)))"
proof (induction cmp pivot xs left right rule: binary_search.induct)
  case (1 cmp pivot xs left right)
  note o = "1.prems"(1) and cb = "1.prems"(2)
    and srt = "1.prems"(3) and sub = "1.prems"(4) and lr = "1.prems"(5) and rl = "1.prems"(6)
    and lo = "1.prems"(7) and hi = "1.prems"(8) and res = "1.prems"(9)
  show ?case
  proof (cases "left < right")
    case False
    from res False have "k = left" by (subst (asm) binary_search.simps) simp
    moreover have "left = right" using False lr by simp
    ultimately show ?thesis using lo hi rl by simp
  next
    case True
    let ?mid = "left + (right - left) div 2"
    have mid: "left \<le> ?mid" "?mid < right" using True by auto
    have ml: "?mid < length xs" using mid rl by simp
    have mS: "xs ! ?mid \<in> S" and pS: "pivot \<in> S" using sub ml by auto
    from compares_by_sign[OF o cb pS mS] obtain c where c: "cmp pivot (xs ! ?mid) = Inr c"
      "(c < 0) = lt (f pivot) (f (xs ! ?mid))" by blast
    have step: "binary_search cmp pivot xs left right =
        (if c < 0 then binary_search cmp pivot xs left ?mid
         else binary_search cmp pivot xs (?mid + 1) right)"
      using True c(1) by (subst binary_search.simps) (simp add: Let_def)
    have nth: "\<And>i j. i < j \<Longrightarrow> j < length xs \<Longrightarrow> \<not> lt (f (xs ! j)) (f (xs ! i))"
      using srt by (simp add: sorted_wrt_iff_nth_less)
    show ?thesis
    proof (cases "c < 0")
      case T: True
      then have r: "binary_search cmp pivot xs left ?mid = Inr k"
        using res step by simp
      have pm: "lt (f pivot) (f (xs ! ?mid))" using T c(2) by simp
      have hi': "\<forall>i. ?mid \<le> i \<and> i < length xs \<longrightarrow> lt (f pivot) (f (xs ! i))"
      proof (intro allI impI)
        fix i assume i: "?mid \<le> i \<and> i < length xs"
        show "lt (f pivot) (f (xs ! i))"
        proof (cases "i = ?mid")
          case True
          then show ?thesis using pm by simp
        next
          case False
          then have "\<not> lt (f (xs ! i)) (f (xs ! ?mid))" using nth[of ?mid i] i by simp
          then show ?thesis using pm strict_total_facts(5)[OF o] by metis
        qed
      qed
      have "?mid \<le> length xs" using ml by simp
      from "1.IH"(1)[OF True refl c(1) T o cb srt sub mid(1) this lo hi' r] show ?thesis .
    next
      case F: False
      then have r: "binary_search cmp pivot xs (?mid + 1) right = Inr k"
        using res step by simp
      have pm: "\<not> lt (f pivot) (f (xs ! ?mid))" using F c(2) by simp
      have lo': "\<forall>i<?mid + 1. \<not> lt (f pivot) (f (xs ! i))"
      proof (intro allI impI)
        fix i assume i: "i < ?mid + 1"
        show "\<not> lt (f pivot) (f (xs ! i))"
        proof (cases "i = ?mid")
          case True
          then show ?thesis using pm by simp
        next
          case False
          then have "\<not> lt (f (xs ! ?mid)) (f (xs ! i))" using nth[of i ?mid] i ml by simp
          then show ?thesis using pm strict_total_facts(6)[OF o] by metis
        qed
      qed
      have "?mid + 1 \<le> right" using mid by simp
      from "1.IH"(2)[OF True refl c(1) F o cb srt sub this rl lo' hi r] show ?thesis .
    qed
  qed
qed

lemma insert_at_place:
  assumes o: "strict_total lt"
    and srt: "sorted_wrt (\<lambda>a b. \<not> lt (f b) (f a)) xs"
    and k: "k \<le> length xs"
    and lo: "\<forall>i<k. \<not> lt (f p) (f (xs ! i))"
    and hi: "\<forall>i. k \<le> i \<and> i < length xs \<longrightarrow> lt (f p) (f (xs ! i))"
  shows "sorted_wrt (\<lambda>a b. \<not> lt (f b) (f a)) (take k xs @ p # drop k xs) \<and>
         filter (\<lambda>t. f t = key) (take k xs @ p # drop k xs) =
           filter (\<lambda>t. f t = key) xs @ (if f p = key then [p] else [])"
proof -
  have tk: "\<forall>x\<in>set (take k xs). \<not> lt (f p) (f x)"
  proof
    fix x assume "x \<in> set (take k xs)"
    then obtain i where "i < length (take k xs)" "take k xs ! i = x"
      by (auto simp: in_set_conv_nth)
    then have "i < k" "xs ! i = x" by simp_all
    then show "\<not> lt (f p) (f x)" using lo by blast
  qed
  have dr: "\<forall>y\<in>set (drop k xs). lt (f p) (f y)"
  proof
    fix y assume "y \<in> set (drop k xs)"
    then obtain i where i: "i < length (drop k xs)" "drop k xs ! i = y"
      by (auto simp: in_set_conv_nth)
    then have "k + i < length xs" "xs ! (k + i) = y" using k by simp_all
    then show "lt (f p) (f y)" using hi by (metis le_add1)
  qed
  have s2: "sorted_wrt (\<lambda>a b. \<not> lt (f b) (f a)) (take k xs @ drop k xs)"
    using srt by simp
  then have parts: "sorted_wrt (\<lambda>a b. \<not> lt (f b) (f a)) (take k xs)"
    "sorted_wrt (\<lambda>a b. \<not> lt (f b) (f a)) (drop k xs)"
    "\<forall>x\<in>set (take k xs). \<forall>y\<in>set (drop k xs). \<not> lt (f y) (f x)"
    unfolding sorted_wrt_append by blast+
  have dr': "\<forall>y\<in>set (drop k xs). \<not> lt (f y) (f p)"
    using dr strict_total_facts(3)[OF o] by metis
  have "sorted_wrt (\<lambda>a b. \<not> lt (f b) (f a)) (p # drop k xs)"
    using parts(2) dr' by simp
  moreover have "\<forall>x\<in>set (take k xs). \<forall>y\<in>set (p # drop k xs). \<not> lt (f y) (f x)"
    using tk parts(3) by simp
  ultimately have 1: "sorted_wrt (\<lambda>a b. \<not> lt (f b) (f a)) (take k xs @ p # drop k xs)"
    unfolding sorted_wrt_append using parts(1) by blast
  have fx: "filter (\<lambda>t. f t = key) xs =
      filter (\<lambda>t. f t = key) (take k xs) @ filter (\<lambda>t. f t = key) (drop k xs)"
    by (metis append_take_drop_id filter_append)
  have 2: "filter (\<lambda>t. f t = key) (take k xs @ p # drop k xs) =
           filter (\<lambda>t. f t = key) xs @ (if f p = key then [p] else [])"
  proof (cases "f p = key")
    case False
    then show ?thesis unfolding fx by simp
  next
    case True
    have "\<forall>y\<in>set (drop k xs). f y \<noteq> key"
      using dr True strict_total_facts(1)[OF o] by metis
    then have "filter (\<lambda>t. f t = key) (drop k xs) = []" by (simp add: filter_empty_conv)
    then show ?thesis unfolding fx using True by simp
  qed
  show ?thesis using 1 2 by blast
qed

lemma binaryInsertionSort_sorted:
  assumes o: "strict_total lt" and cb: "compares_by cmp f lt S"
  shows "sorted_wrt (\<lambda>a b. \<not> lt (f b) (f a)) sp \<Longrightarrow> set sp \<union> set rest \<subseteq> S \<Longrightarrow>
         binaryInsertionSort cmp sp rest = Inr out \<Longrightarrow>
         sorted_wrt (\<lambda>a b. \<not> lt (f b) (f a)) out \<and>
         filter (\<lambda>t. f t = key) out = filter (\<lambda>t. f t = key) (sp @ rest)"
proof (induction rest arbitrary: sp)
  case Nil
  then show ?case by simp
next
  case (Cons p rest)
  from Cons.prems(3) obtain k where k: "binary_search cmp p sp 0 (length sp) = Inr k"
    by (cases "binary_search cmp p sp 0 (length sp)") auto
  then have r: "binaryInsertionSort cmp (take k sp @ p # drop k sp) rest = Inr out"
    using Cons.prems(3) by simp
  have sub: "insert p (set sp) \<subseteq> S" using Cons.prems(2) by auto
  have pl: "k \<le> length sp \<and> (\<forall>i<k. \<not> lt (f p) (f (sp ! i))) \<and>
         (\<forall>i. k \<le> i \<and> i < length sp \<longrightarrow> lt (f p) (f (sp ! i)))"
    by (rule binary_search_place[OF o cb Cons.prems(1) sub _ _ _ _ k]) auto
  note ins = insert_at_place[OF o Cons.prems(1), of k p key]
  have st: "sorted_wrt (\<lambda>a b. \<not> lt (f b) (f a)) (take k sp @ p # drop k sp)"
    and fl: "filter (\<lambda>t. f t = key) (take k sp @ p # drop k sp) =
           filter (\<lambda>t. f t = key) sp @ (if f p = key then [p] else [])"
    using ins pl by blast+
  have sub': "set (take k sp @ p # drop k sp) \<union> set rest \<subseteq> S"
    unfolding set_insert_at using Cons.prems(2) by auto
  from Cons.IH[OF st sub' r]
  have so: "sorted_wrt (\<lambda>a b. \<not> lt (f b) (f a)) out"
    and "filter (\<lambda>t. f t = key) out = filter (\<lambda>t. f t = key) ((take k sp @ p # drop k sp) @ rest)"
    by blast+
  note this(2)
  also have "filter (\<lambda>t. f t = key) ((take k sp @ p # drop k sp) @ rest) =
      filter (\<lambda>t. f t = key) (take k sp @ p # drop k sp) @ filter (\<lambda>t. f t = key) rest"
    by (rule filter_append)
  also have "\<dots> = (filter (\<lambda>t. f t = key) sp @ (if f p = key then [p] else [])) @
      filter (\<lambda>t. f t = key) rest"
    by (simp only: fl)
  also have "\<dots> = filter (\<lambda>t. f t = key) (sp @ p # rest)" by simp
  finally show ?case using so by blast
qed

lemma array_sort_sorted:
  assumes o: "strict_total lt" and cb: "compares_by cmp f lt S" and sub: "set xs \<subseteq> S"
  shows "\<exists>out. array_sort cmp xs = Inr out \<and>
           sorted_wrt (\<lambda>a b. \<not> lt (f b) (f a)) out \<and>
           (\<forall>key. filter (\<lambda>t. f t = key) out = filter (\<lambda>t. f t = key) xs)"
proof (cases "array_sort cmp xs")
  case (Inl e)
  from array_sort_Inl[OF Inl] obtain a b where "a \<in> set xs" "b \<in> set xs" "cmp a b = Inl e"
    by blast
  then have False using compares_by_sign[OF o cb, of a b] sub by auto
  then show ?thesis ..
next
  case (Inr out)
  show ?thesis
  proof (cases "length xs < 2")
    case True
    then have "out = xs" using Inr by (simp add: array_sort_def)
    moreover have "sorted_wrt (\<lambda>a b. \<not> lt (f b) (f a)) xs"
    proof (cases xs)
      case Nil
      then show ?thesis by simp
    next
      case (Cons x t)
      then have "t = []" using True by simp
      then show ?thesis using Cons by simp
    qed
    ultimately show ?thesis using Inr by simp
  next
    case False
    then obtain ys r where m: "countAndMakeRun cmp xs = Inr (ys, r)"
      using Inr by (cases "countAndMakeRun cmp xs") (auto simp: array_sort_def)
    then have b: "binaryInsertionSort cmp (take r ys) (drop r ys) = Inr out"
      using Inr False by (simp add: array_sort_def)
    note c = countAndMakeRun_cases[OF m]
    have dr: "drop r ys = drop r xs" using c by simp
    have s1: "sorted_wrt (\<lambda>a b. \<not> lt (f b) (f a)) (take r ys)"
      using countAndMakeRun_sorted[OF o cb sub m] by blast
    have "set (take r ys) = set (take r xs)" using c by auto
    then have "set (take r ys) \<union> set (drop r ys) = set (take r xs) \<union> set (drop r xs)"
      using dr by simp
    also have "\<dots> = set xs" by (metis append_take_drop_id set_append)
    finally have s2: "set (take r ys) \<union> set (drop r ys) \<subseteq> S" using sub by simp
    have "filter (\<lambda>t. f t = key) out = filter (\<lambda>t. f t = key) xs" for key
    proof -
      have "filter (\<lambda>t. f t = key) out = filter (\<lambda>t. f t = key) (take r ys @ drop r ys)"
        using binaryInsertionSort_sorted[OF o cb s1 s2 b] by blast
      also have "\<dots> = filter (\<lambda>t. f t = key) (take r xs) @ filter (\<lambda>t. f t = key) (drop r xs)"
        unfolding filter_append dr using countAndMakeRun_sorted[OF o cb sub m] by simp
      also have "\<dots> = filter (\<lambda>t. f t = key) xs"
        by (metis append_take_drop_id filter_append)
      finally show ?thesis .
    qed
    moreover have "sorted_wrt (\<lambda>a b. \<not> lt (f b) (f a)) out"
      using binaryInsertionSort_sorted[OF o cb s1 s2 b] by blast
    ultimately show ?thesis using Inr by blast
  qed
qed

lemma str_lt_irrefl: "\<not> str_lt x x"
  by (induction x) auto

lemma str_lt_trans: "str_lt x y \<Longrightarrow> str_lt y z \<Longrightarrow> str_lt x z"
proof (induction x arbitrary: y z)
  case Nil
  then show ?case by (cases y; cases z) auto
next
  case (Cons a x)
  then obtain b y' where y: "y = b # y'" by (cases y) auto
  with Cons.prems obtain c z' where z: "z = c # z'" by (cases z) auto
  have 1: "(of_char a :: nat) < of_char b \<or> (a = b \<and> str_lt x y')"
    using Cons.prems(1) y by simp
  have 2: "(of_char b :: nat) < of_char c \<or> (b = c \<and> str_lt y' z')"
    using Cons.prems(2) y z by simp
  show ?case
  proof (cases "a = b \<and> b = c")
    case True
    then have "str_lt x y'" "str_lt y' z'" using 1 2 by auto
    then have "str_lt x z'" by (rule Cons.IH)
    then show ?thesis using True z by simp
  next
    case False
    then have "(of_char a :: nat) < of_char c" using 1 2 by auto
    then show ?thesis using z by simp
  qed
qed

lemma str_lt_total: "x \<noteq> y \<Longrightarrow> str_lt x y \<or> str_lt y x"
proof (induction x arbitrary: y)
  case Nil
  then show ?case by (cases y) auto
next
  case (Cons a x)
  show ?case
  proof (cases y)
    case Nil
    then show ?thesis by simp
  next
    case (Cons b y')
    show ?thesis
    proof (cases "a = b")
      case True
      then have "x \<noteq> y'" using Cons.prems Cons by simp
      from Cons.IH[OF this] show ?thesis using True Cons by auto
    next
      case False
      then have "(of_char a :: nat) \<noteq> of_char b" by simp
      then have "(of_char a :: nat) < of_char b \<or> (of_char b :: nat) < of_char a" by arith
      then show ?thesis unfolding Cons str_lt.simps by blast
    qed
  qed
qed

lemma rank_lt_strict_total: "strict_total rank_lt"
proof -
  have i: "\<not> rank_lt x x" for x by (cases x) (simp_all add: str_lt_irrefl)
  have t: "rank_lt x y \<Longrightarrow> rank_lt y z \<Longrightarrow> rank_lt x z" for x y z
    by (cases x; cases y; cases z) (auto intro: str_lt_trans)
  have c: "x \<noteq> y \<Longrightarrow> rank_lt x y \<or> rank_lt y x" for x y
    by (cases x; cases y) (auto dest: str_lt_total)
  show ?thesis unfolding strict_total_def using i t c by blast
qed

lemma strict_total_flip: "strict_total lt \<Longrightarrow> strict_total (\<lambda>x y. lt y x)"
  unfolding strict_total_def by blast

lemma js_lt_strings: "js_lt clk (JStr x) (JStr y) = str_lt x y"
  by (simp add: js_lt_def to_primitive_def)

lemma js_lt_numeric:
  "is_numeric a \<Longrightarrow> is_numeric b \<Longrightarrow> js_lt clk a b = rank_lt (rank a) (rank b)"
  by (cases a; cases b) (simp_all add: is_numeric_def js_lt_def to_primitive_def to_number_def rank_def)

lemma js_lt_arrays:
  "is_array a \<Longrightarrow> is_array b \<Longrightarrow> js_lt clk a b = rank_lt (rank a) (rank b)"
  by (cases a; cases b) (simp_all add: is_array_def js_lt_def to_primitive_def rank_def)

lemma js_lt_nan:
  "is_nan a \<Longrightarrow> is_nan b \<Longrightarrow> js_lt clk a b = rank_lt (rank a) (rank b)"
  by (cases a; cases b) (simp_all add: is_nan_def js_lt_def to_primitive_def to_number_def rank_def)

lemma kinds_exclusive:
  "is_numeric v \<Longrightarrow> \<not> is_string v" "is_array v \<Longrightarrow> \<not> is_string v" "is_nan v \<Longrightarrow> \<not> is_string v"
  by (cases v; simp add: is_numeric_def is_array_def is_nan_def is_string_def)+

lemma compareTasks_same_kind:
  assumes "is_string va \<and> is_string vb \<or> is_numeric va \<and> is_numeric vb \<or>
           is_array va \<and> is_array vb \<or> is_nan va \<and> is_nan vb"
    and "sortValue clk sortBy a = va" "sortValue clk sortBy b = vb"
  shows "compareTasks clk sortBy order a b =
     Inr (if rank_lt (rank va) (rank vb) then (if order = ''asc'' then - 1 else 1)
          else if rank_lt (rank vb) (rank va) then (if order = ''asc'' then 1 else - 1)
          else 0)"
proof (cases "is_string va")
  case True
  then have sb: "is_string vb" using assms(1) kinds_exclusive by blast
  obtain x where x: "va = JStr x" using True by (cases va) (simp_all add: is_string_def)
  obtain y where y: "vb = JStr y" using sb by (cases vb) (simp_all add: is_string_def)
  show ?thesis
    unfolding compareTasks_def assms(2,3) x y
    by (simp add: Let_def is_string_def lower_val_def js_lt_strings rank_def)
next
  case False
  then have nb: "\<not> is_string vb" using assms(1) kinds_exclusive by blast
  have l: "js_lt clk va vb = rank_lt (rank va) (rank vb)"
    "js_lt clk vb va = rank_lt (rank vb) (rank va)"
    using assms(1) False nb js_lt_numeric js_lt_arrays js_lt_nan by blast+
  show ?thesis
    unfolding compareTasks_def assms(2,3) using False l by (simp add: Let_def)
qed

lemma uniform_pairs:
  assumes "uniform_values clk sortBy ts" "a \<in> set ts" "b \<in> set ts"
  shows "is_string (sortValue clk sortBy a) \<and> is_string (sortValue clk sortBy b) \<or>
         is_numeric (sortValue clk sortBy a) \<and> is_numeric (sortValue clk sortBy b) \<or>
         is_array (sortValue clk sortBy a) \<and> is_array (sortValue clk sortBy b) \<or>
         is_nan (sortValue clk sortBy a) \<and> is_nan (sortValue clk sortBy b)"
  using assms unfolding uniform_values_def list_all_iff by blast

lemma compareTasks_compares_by:
  assumes "uniform_values clk sortBy ts"
  shows "order = ''asc'' \<Longrightarrow>
           compares_by (compareTasks clk sortBy order) (\<lambda>t. rank (sortValue clk sortBy t))
             rank_lt (set ts)"
    and "order \<noteq> ''asc'' \<Longrightarrow>
           compares_by (compareTasks clk sortBy order) (\<lambda>t. rank (sortValue clk sortBy t))
             (\<lambda>x y. rank_lt y x) (set ts)"
proof -
  note o = strict_total_facts[OF rank_lt_strict_total]
  have e: "compareTasks clk sortBy order a b =
     Inr (if rank_lt (rank (sortValue clk sortBy a)) (rank (sortValue clk sortBy b))
          then (if order = ''asc'' then - 1 else 1)
          else if rank_lt (rank (sortValue clk sortBy b)) (rank (sortValue clk sortBy a))
          then (if order = ''asc'' then 1 else - 1)
          else 0)" if "a \<in> set ts" "b \<in> set ts" for a b
    by (rule compareTasks_same_kind[OF uniform_pairs[OF assms that] refl refl])
  show "order = ''asc'' \<Longrightarrow>
           compares_by (compareTasks clk sortBy order) (\<lambda>t. rank (sortValue clk sortBy t))
             rank_lt (set ts)"
    unfolding compares_by_def using e by simp
  show "order \<noteq> ''asc'' \<Longrightarrow>
           compares_by (compareTasks clk sortBy order) (\<lambda>t. rank (sortValue clk sortBy t))
             (\<lambda>x y. rank_lt y x) (set ts)"
    unfolding compares_by_def using e o(3) by auto
qed

lemma sortTasks_when_uniform:
  assumes u: "uniform_values clk sortBy ts"
  shows "\<exists>out. sortTasks clk ts sortBy order = Inr out \<and> set out = set ts \<and>
           length out = length ts \<and>
           sorted_wrt (\<lambda>a b. \<exists>c\<le>0. compareTasks clk sortBy order a b = Inr c) out \<and>
           (\<forall>a\<in>set ts. filter (\<lambda>t. compareTasks clk sortBy order a t = Inr 0) out =
                        filter (\<lambda>t. compareTasks clk sortBy order a t = Inr 0) ts)"
proof -
  let ?cmp = "compareTasks clk sortBy order"
  let ?f = "\<lambda>t. rank (sortValue clk sortBy t)"
  obtain lt where o: "strict_total lt" and cb: "compares_by ?cmp ?f lt (set ts)"
  proof (cases "order = ''asc''")
    case True
    from that[OF rank_lt_strict_total compareTasks_compares_by(1)[OF u True]] show ?thesis .
  next
    case False
    from that[OF strict_total_flip[OF rank_lt_strict_total] compareTasks_compares_by(2)[OF u False]]
    show ?thesis .
  qed
  from array_sort_sorted[OF o cb subset_refl] obtain out where out:
    "array_sort ?cmp ts = Inr out" "sorted_wrt (\<lambda>a b. \<not> lt (?f b) (?f a)) out"
    "\<And>key. filter (\<lambda>t. ?f t = key) out = filter (\<lambda>t. ?f t = key) ts"
    by blast
  have s: "set out = set ts" using array_sort_set[OF out(1)] .
  have l: "length out = length ts" using array_sort_length[OF out(1)] .
  have sg: "\<exists>c. ?cmp a b = Inr c \<and> (c \<le> 0) = (\<not> lt (?f b) (?f a)) \<and> (c = 0) = (?f a = ?f b)"
    if "a \<in> set ts" "b \<in> set ts" for a b
    using compares_by_sign[OF o cb that] by blast
  have 1: "sorted_wrt (\<lambda>a b. \<exists>c\<le>0. ?cmp a b = Inr c) out"
  proof (rule sorted_wrt_mono_rel[OF _ out(2)])
    fix a b assume "a \<in> set out" "b \<in> set out" "\<not> lt (?f b) (?f a)"
    then show "\<exists>c\<le>0. ?cmp a b = Inr c" using sg[of a b] s by auto
  qed
  have 2: "filter (\<lambda>t. ?cmp a t = Inr 0) out = filter (\<lambda>t. ?cmp a t = Inr 0) ts"
    if a: "a \<in> set ts" for a
  proof -
    have e: "(?cmp a t = Inr 0) = (?f t = ?f a)" if "t \<in> set ts" for t
      using sg[OF a that] by auto
    have "filter (\<lambda>t. ?cmp a t = Inr 0) out = filter (\<lambda>t. ?f t = ?f a) out"
      by (rule filter_cong[OF refl]) (use e s in blast)
    also have "\<dots> = filter (\<lambda>t. ?f t = ?f a) ts" by (rule out(3))
    also have "\<dots> = filter (\<lambda>t. ?cmp a t = Inr 0) ts"
      by (rule filter_cong[OF refl]) (use e in blast)
    finally show ?thesis .
  qed
  show ?thesis using out(1) s l 1 2 unfolding sortTasks_def by blast
qed

lemma compareTasks_Inl:
  "compareTasks clk sortBy order a b = Inl e \<longleftrightarrow>
     is_string (sortValue clk sortBy a) \<and> \<not> is_string (sortValue clk sortBy b)"
  by (cases e) (simp add: compareTasks_def Let_def)

lemma to_time_numeric_or_nan: "is_numeric (to_time clk v) \<or> to_time clk v = JNaN"
  by (cases v)
    (simp_all add: to_time_def time_of_string_def is_numeric_def truthy_def split: option.splits)

lemma uniform_date_key:
  assumes "is_date_key sortBy" "list_all (\<lambda>t. sortValue clk sortBy t \<noteq> JNaN) ts"
  shows "uniform_values clk sortBy ts"
proof -
  have "is_numeric (sortValue clk sortBy t)" if "t \<in> set ts" for t
  proof -
    have "sortValue clk sortBy t \<noteq> JNaN" using assms(2) that by (simp add: list_all_iff)
    moreover have "sortValue clk sortBy t = to_time clk (getProp t sortBy)"
      using assms(1) by (simp add: sortValue_def)
    ultimately show ?thesis using to_time_numeric_or_nan[of clk "getProp t sortBy"] by auto
  qed
  then show ?thesis unfolding uniform_values_def list_all_iff by blast
qed

lemma date_keys: "is_date_key ''dueDate''" "is_date_key ''createdAt''" "is_date_key ''updatedAt''"
  "is_date_key ''completedAt''" "\<not> is_date_key ''id''"
  by code_simp+

lemma getProp_kind:
  assumes "\<not> is_date_key sortBy" "sortBy \<noteq> ''id''"
  shows "(\<forall>t. is_string (getProp t sortBy)) \<or> (\<forall>t. is_numeric (getProp t sortBy)) \<or>
         (\<forall>t. is_array (getProp t sortBy)) \<or> (\<forall>t. is_nan (getProp t sortBy))"
proof -
  have d: "sortBy \<noteq> ''dueDate''" "sortBy \<noteq> ''createdAt''" "sortBy \<noteq> ''updatedAt''"
    "sortBy \<noteq> ''completedAt''"
    using assms(1) date_keys by auto
  have n: "is_numeric (opt_num v)" for v
    by (cases v) (simp_all add: opt_num_def is_numeric_def)
  have k0: "sortBy = ''title'' \<Longrightarrow> \<forall>t. is_string (getProp t sortBy)"
    by (simp add: getProp_def is_string_def)
  have k1: "sortBy = ''description'' \<Longrightarrow> \<forall>t. is_string (getProp t sortBy)"
    by (simp add: getProp_def is_string_def)
  have k2: "sortBy = ''completed'' \<Longrightarrow> \<forall>t. is_numeric (getProp t sortBy)"
    by (simp add: getProp_def is_numeric_def)
  have k3: "sortBy = ''priority'' \<Longrightarrow> \<forall>t. is_string (getProp t sortBy)"
    by (simp add: getProp_def is_string_def)
  have k4: "sortBy = ''tags'' \<Longrightarrow> \<forall>t. is_array (getProp t sortBy)"
    by (simp add: getProp_def is_array_def)
  have k5: "sortBy = ''estimatedTime'' \<Longrightarrow> \<forall>t. is_numeric (getProp t sortBy)"
    by (simp add: getProp_def n)
  have k6: "sortBy = ''actualTime'' \<Longrightarrow> \<forall>t. is_numeric (getProp t sortBy)"
    by (simp add: getProp_def n)
  have k7: "sortBy = ''notes'' \<Longrightarrow> \<forall>t. is_string (getProp t sortBy)"
    by (simp add: getProp_def is_string_def)
  have k8: "sortBy = ''links'' \<Longrightarrow> \<forall>t. is_array (getProp t sortBy)"
    by (simp add: getProp_def is_array_def)
  have other: "\<forall>t. is_nan (getProp t sortBy)"
    if "sortBy \<noteq> ''title''" "sortBy \<noteq> ''description''" "sortBy \<noteq> ''completed''" "sortBy \<noteq> ''priority''" "sortBy \<noteq> ''tags''" "sortBy \<noteq> ''estimatedTime''" "sortBy \<noteq> ''actualTime''" "sortBy \<noteq> ''notes''" "sortBy \<noteq> ''links''"
    using that assms(2) d by (simp add: getProp_def is_nan_def)
  show ?thesis
  proof (cases "sortBy = ''title''")
    case True
    from k0[OF True] show ?thesis by blast
  next
    case n0: False
    show ?thesis
    proof (cases "sortBy = ''description''")
      case True
      from k1[OF True] show ?thesis by blast
    next
      case n1: False
      show ?thesis
      proof (cases "sortBy = ''completed''")
        case True
        from k2[OF True] show ?thesis by blast
      next
        case n2: False
        show ?thesis
        proof (cases "sortBy = ''priority''")
          case True
          from k3[OF True] show ?thesis by blast
        next
          case n3: False
          show ?thesis
          proof (cases "sortBy = ''tags''")
            case True
            from k4[OF True] show ?thesis by blast
          next
            case n4: False
            show ?thesis
            proof (cases "sortBy = ''estimatedTime''")
              case True
              from k5[OF True] show ?thesis by blast
            next
              case n5: False
              show ?thesis
              proof (cases "sortBy = ''actualTime''")
                case True
                from k6[OF True] show ?thesis by blast
              next
                case n6: False
                show ?thesis
                proof (cases "sortBy = ''notes''")
                  case True
                  from k7[OF True] show ?thesis by blast
                next
                  case n7: False
                  show ?thesis
                  proof (cases "sortBy = ''links''")
                    case True
                    from k8[OF True] show ?thesis by blast
                  next
                    case n8: False
                    show ?thesis
                      using other[OF n0 n1 n2 n3 n4 n5 n6 n7 n8] by blast
                  qed
                qed
              qed
            qed
          qed
        qed
      qed
    qed
  qed
qed

lemma uniform_plain_key:
  assumes "\<not> is_date_key sortBy" "sortBy \<noteq> ''id''"
  shows "uniform_values clk sortBy ts"
proof -
  have "sortValue clk sortBy t = getProp t sortBy" for t
    using assms(1) by (simp add: sortValue_def)
  then show ?thesis
    unfolding uniform_values_def list_all_iff using getProp_kind[OF assms] by auto
qed

lemma uniform_id_key:
  assumes "list_all (\<lambda>t. task_id t \<noteq> None) ts \<or> list_all (\<lambda>t. task_id t = None) ts"
  shows "uniform_values clk ''id'' ts"
proof -
  have v: "sortValue clk ''id'' t = opt_str (task_id t)" for t
    using date_keys(5) by (simp add: sortValue_def getProp_def)
  from assms show ?thesis
  proof
    assume "list_all (\<lambda>t. task_id t \<noteq> None) ts"
    then have "\<forall>t\<in>set ts. is_string (sortValue clk ''id'' t)"
      unfolding v list_all_iff by (auto simp: opt_str_def is_string_def)
    then show ?thesis unfolding uniform_values_def list_all_iff by blast
  next
    assume "list_all (\<lambda>t. task_id t = None) ts"
    then have "\<forall>t\<in>set ts. is_numeric (sortValue clk ''id'' t)"
      unfolding v list_all_iff by (auto simp: opt_str_def is_numeric_def)
    then show ?thesis unfolding uniform_values_def list_all_iff by blast
  qed
qed

subsection \<open>C6: stability of sorting\<close>

text \<open>
  Claim C6, as amended. Whenever the values of the tasks under the sort key are uniform,
  \<^verbatim>\<open>sortTasks\<close> returns the tasks in an order the comparator accepts, and any two
  tasks that the comparator reports equal stand in the output in the order they had in
  the input, for either sort order. The values are uniform under a date key when every
  date is empty, null or parses; under \<^verbatim>\<open>id\<close> when the identifiers are all strings or
  all null; and under every other key always.
\<close>

theorem sortTasks_stable:
  "(uniform_values clk sortBy ts \<longrightarrow>
      (\<exists>out. sortTasks clk ts sortBy order = Inr out \<and> set out = set ts \<and>
         length out = length ts \<and>
         sorted_wrt (\<lambda>a b. \<exists>c\<le>0. compareTasks clk sortBy order a b = Inr c) out \<and>
         (\<forall>a\<in>set ts. filter (\<lambda>t. compareTasks clk sortBy order a t = Inr 0) out =
                      filter (\<lambda>t. compareTasks clk sortBy order a t = Inr 0) ts))) \<and>
   (is_date_key sortBy \<and> list_all (\<lambda>t. sortValue clk sortBy t \<noteq> JNaN) ts \<longrightarrow>
      uniform_values clk sortBy ts) \<and>
   (\<not> is_date_key sortBy \<and> sortBy \<noteq> ''id'' \<longrightarrow> uniform_values clk sortBy ts) \<and>
   (sortBy = ''id'' \<and>
      (list_all (\<lambda>t. task_id t \<noteq> None) ts \<or> list_all (\<lambda>t. task_id t = None) ts) \<longrightarrow>
      uniform_values clk sortBy ts)"
  using sortTasks_when_uniform uniform_date_key uniform_plain_key uniform_id_key by blast

text \<open>
  ``Report'', ``Agenda'' and ``REPORT'': the two reports compare equal under the title key
  and keep their order, ascending and descending, and under the priority key; the
  creation time, descending, puts the later ``REPORT'' first and keeps the order of the
  other two. Their creation times all parse and their identifiers are all strings, so
  their values are uniform under those keys too.
\<close>

theorem sortTasks_stable_witness:
  "uniform_values clock0 ''title'' three_tasks \<and>
   map title three_tasks = [''Report'', ''Agenda'', ''REPORT''] \<and>
   map_sum id (map title) (sortTasks clock0 three_tasks ''title'' ''asc'') = Inr [''Agenda'', ''Report'', ''REPORT''] \<and>
   map_sum id (map title) (sortTasks clock0 three_tasks ''title'' ''desc'') = Inr [''Report'', ''REPORT'', ''Agenda''] \<and>
   map_sum id (map title) (sortTasks clock0 three_tasks ''priority'' ''asc'') = Inr [''Report'', ''REPORT'', ''Agenda''] \<and>
   map_sum id (map title) (sortTasks clock0 three_tasks ''createdAt'' ''desc'') = Inr [''REPORT'', ''Report'', ''Agenda''] \<and>
   compareTasks clock0 ''title'' ''desc'' (three_tasks ! 0) (three_tasks ! 2) = Inr 0 \<and>
   (\<exists>out. sortTasks clock0 three_tasks ''title'' ''desc'' = Inr out \<and>
      filter (\<lambda>t. compareTasks clock0 ''title'' ''desc'' (three_tasks ! 0) t = Inr 0) out =
      filter (\<lambda>t. compareTasks clock0 ''title'' ''desc'' (three_tasks ! 0) t = Inr 0) three_tasks) \<and>
   is_date_key ''createdAt'' \<and>
   list_all (\<lambda>t. sortValue clock0 ''createdAt'' t \<noteq> JNaN) three_tasks \<and>
   uniform_values clock0 ''createdAt'' three_tasks \<and>
   list_all (\<lambda>t. task_id t \<noteq> None) three_tasks \<and>
   uniform_values clock0 ''id'' three_tasks"
proof -
  have 0: "uniform_values clock0 ''title'' three_tasks" by code_simp
  have 1: "map title three_tasks = [''Report'', ''Agenda'', ''REPORT'']" by code_simp
  have 2: "map_sum id (map title) (sortTasks clock0 three_tasks ''title'' ''asc'') = Inr [''Agenda'', ''Report'', ''REPORT'']" by code_simp
  have 3: "map_sum id (map title) (sortTasks clock0 three_tasks ''title'' ''desc'') = Inr [''Report'', ''REPORT'', ''Agenda'']" by code_simp
  have 4: "map_sum id (map title) (sortTasks clock0 three_tasks ''priority'' ''asc'') = Inr [''Report'', ''REPORT'', ''Agenda'']" by code_simp
  have 5: "map_sum id (map title) (sortTasks clock0 three_tasks ''createdAt'' ''desc'') = Inr [''REPORT'', ''Report'', ''Agenda'']" by code_simp
  have 6: "compareTasks clock0 ''title'' ''desc'' (three_tasks ! 0) (three_tasks ! 2) = Inr 0" by code_simp
  have 7: "three_tasks ! 0 \<in> set three_tasks" by (simp add: three_tasks_def)
  have 8: "\<exists>out. sortTasks clock0 three_tasks ''title'' ''desc'' = Inr out \<and>
      filter (\<lambda>t. compareTasks clock0 ''title'' ''desc'' (three_tasks ! 0) t = Inr 0) out =
      filter (\<lambda>t. compareTasks clock0 ''title'' ''desc'' (three_tasks ! 0) t = Inr 0) three_tasks"
    using sortTasks_stable[of clock0 "''title''" three_tasks "''desc''"] 0 7 by blast
  have 9: "is_date_key ''createdAt''" by code_simp
  have 10: "list_all (\<lambda>t. sortValue clock0 ''createdAt'' t \<noteq> JNaN) three_tasks" by code_simp
  have 11: "uniform_values clock0 ''createdAt'' three_tasks"
    using sortTasks_stable[of clock0 "''createdAt''" three_tasks "''desc''"] 9 10 by blast
  have 12: "list_all (\<lambda>t. task_id t \<noteq> None) three_tasks" by code_simp
  have 13: "uniform_values clock0 ''id'' three_tasks"
    using sortTasks_stable[of clock0 "''id''" three_tasks "''desc''"] 12 by blast
  show ?thesis using 0 1 2 3 4 5 6 8 9 10 11 12 13 by blast
qed

text \<open>
  Claim C6 as stated fails when a due date does not parse. The tasks a to g have the due
  dates x, x, 10 January, x, 6 January, 1 January, 6 January. Tasks e and g have equal
  keys and compare equal, e standing before g; sorted by due date, ascending, g stands
  before e. The comparator is not consistent there: c compares equal to d and d to e,
  and c compares greater than e.
\<close>

theorem sortTasks_unparsable_date_counterexample:
  "map task_id seven_tasks = map Some [''a'', ''b'', ''c'', ''d'', ''e'', ''f'', ''g''] \<and>
   map (sortKey clock0 ''dueDate'') seven_tasks =
     [JNaN, JNaN, JNum 777600000, JNaN, JNum 432000000, JNum 0, JNum 432000000] \<and>
   compareTasks clock0 ''dueDate'' ''asc'' (seven_tasks ! 4) (seven_tasks ! 6) = Inr 0 \<and>
   map_sum id (map task_id) (sortTasks clock0 seven_tasks ''dueDate'' ''asc'') =
     Inr (map Some [''a'', ''b'', ''f'', ''g'', ''c'', ''d'', ''e'']) \<and>
   compareTasks clock0 ''dueDate'' ''asc'' (seven_tasks ! 2) (seven_tasks ! 3) = Inr 0 \<and>
   compareTasks clock0 ''dueDate'' ''asc'' (seven_tasks ! 3) (seven_tasks ! 4) = Inr 0 \<and>
   compareTasks clock0 ''dueDate'' ''asc'' (seven_tasks ! 2) (seven_tasks ! 4) = Inr 1"
  by code_simp

subsection \<open>C9: search within the active filter\<close>

lemma createdAt_is_date_key: "is_date_key ''createdAt''"
  by code_simp

lemma to_time_not_string: "\<not> is_string (to_time clk v)"
  by (simp add: to_time_def time_of_string_def is_string_def split: jsval.splits option.splits)

lemma sortTasks_createdAt_returns:
  "\<exists>out. sortTasks clk ts ''createdAt'' order = Inr out \<and> set out = set ts"
proof (cases "sortTasks clk ts ''createdAt'' order")
  case (Inl e)
  then have "\<exists>a\<in>set ts. \<exists>b\<in>set ts. compareTasks clk ''createdAt'' order a b = Inl e"
    unfolding sortTasks_def by (rule array_sort_Inl)
  then have False
    unfolding compareTasks_Inl sortValue_def using createdAt_is_date_key to_time_not_string
    by simp
  then show ?thesis ..
next
  case (Inr out)
  then show ?thesis using array_sort_set[of _ ts out] by (simp add: sortTasks_def)
qed

lemma searchTasks_filter:
  "q \<noteq> [] \<Longrightarrow> searchTasks clk q st = filter (matches_search q) (getAllTasks clk st)"
  unfolding searchTasks_def getFilteredTasks_filter
  by (rule filter_cong)
    (simp_all add: no_filters_def wants_completed_def wants_priority_def wants_due_def
      wants_tags_def wants_search_def)

lemma getTasksForFilter_filter:
  "getTasksForFilter clk flt st = filter (\<lambda>t. shouldShowTask clk t flt) (getAllTasks clk st)"
proof -
  have 1: "getTodayTasks clk st = filter (\<lambda>t. isDueToday clk t \<and> \<not> completed t) (getAllTasks clk st)"
    unfolding getTodayTasks_def getFilteredTasks_filter
    by (rule filter_cong)
      (auto simp: no_filters_def wants_completed_def wants_priority_def wants_due_def
        wants_tags_def wants_search_def)
  have 2: "getUpcomingTasks clk st =
      filter (\<lambda>t. isDueThisWeek clk t \<and> \<not> isDueToday clk t \<and> \<not> completed t) (getAllTasks clk st)"
    unfolding getUpcomingTasks_def getFilteredTasks_filter
    by (rule filter_cong)
      (auto simp: no_filters_def wants_completed_def wants_priority_def wants_due_def
        wants_tags_def wants_search_def)
  have 3: "getCompletedTasks clk st = filter (\<lambda>t. completed t) (getAllTasks clk st)"
    unfolding getCompletedTasks_def getFilteredTasks_filter
    by (rule filter_cong)
      (auto simp: no_filters_def wants_completed_def wants_priority_def wants_due_def
        wants_tags_def wants_search_def)
  show ?thesis
    unfolding getTasksForFilter_def shouldShowTask_def using 1 2 3 by simp
qed

text \<open>
  Claim C9. With a non-empty search text \<^verbatim>\<open>render\<close> returns, and its rows are exactly
  the tasks of the collection that match the search and that \<^verbatim>\<open>shouldShowTask\<close>
  accepts for the filter: every row matches the search and satisfies the filter's
  predicate, and no row lies outside the tasks the filter alone would show.
\<close>

theorem render_search_stays_in_filter:
  assumes "search \<noteq> []"
  shows "\<exists>v. render clk flt search st = Inr v \<and>
           set (rows v) = {t \<in> set (getAllTasks clk st). matches_search search t \<and> shouldShowTask clk t flt} \<and>
           (\<forall>t\<in>set (rows v). matches_search search t \<and> shouldShowTask clk t flt) \<and>
           set (rows v) \<subseteq> set (getTasksForFilter clk flt st)"
proof -
  let ?ts = "filter (\<lambda>t. shouldShowTask clk t flt) (searchTasks clk search st)"
  obtain out where out: "sortTasks clk ?ts ''createdAt'' ''desc'' = Inr out" "set out = set ?ts"
    using sortTasks_createdAt_returns by blast
  have r: "render clk flt search st = Inr \<lparr>rows = out, emptyStateShown = (length out = 0)\<rparr>"
    using assms out(1) by (simp add: render_def Let_def)
  have s: "set out = {t \<in> set (getAllTasks clk st). matches_search search t \<and> shouldShowTask clk t flt}"
    unfolding out(2) searchTasks_filter[OF assms] by auto
  have "set out \<subseteq> set (getTasksForFilter clk flt st)"
    unfolding s getTasksForFilter_filter by auto
  then show ?thesis using r s by auto
qed

text \<open>
  The collection ``Ship report'', ``Buy milk'' (described ``before shipping''): both match
  ``ship'', only the first matches ``REPORT'', and neither is shown under the filter for
  completed tasks.
\<close>

theorem render_search_witness:
  "''ship'' \<noteq> [] \<and>
   map title (getAllTasks clock1 store2) = [''Ship report'', ''Buy milk''] \<and>
   map title (getTasksForFilter clock1 ''completed'' store2) = [] \<and>
   map_sum id (\<lambda>v. map title (rows v)) (render clock1 ''all'' [] store2) = Inr [''Buy milk'', ''Ship report''] \<and>
   map_sum id (\<lambda>v. map title (rows v)) (render clock1 ''all'' ''ship'' store2) = Inr [''Buy milk'', ''Ship report''] \<and>
   map_sum id (\<lambda>v. map title (rows v)) (render clock1 ''all'' ''REPORT'' store2) = Inr [''Ship report''] \<and>
   map_sum id (\<lambda>v. map title (rows v)) (render clock1 ''completed'' ''ship'' store2) = Inr [] \<and>
   (\<exists>v. render clock1 ''all'' ''REPORT'' store2 = Inr v \<and>
      set (rows v) \<subseteq> set (getTasksForFilter clock1 ''all'' store2))"
proof -
  have 0: "''ship'' \<noteq> []" by simp
  have 1: "map title (getAllTasks clock1 store2) = [''Ship report'', ''Buy milk'']" by code_simp
  have 2: "map title (getTasksForFilter clock1 ''completed'' store2) = []" by code_simp
  have 3: "map_sum id (\<lambda>v. map title (rows v)) (render clock1 ''all'' [] store2) = Inr [''Buy milk'', ''Ship report'']" by code_simp
  have 4: "map_sum id (\<lambda>v. map title (rows v)) (render clock1 ''all'' ''ship'' store2) = Inr [''Buy milk'', ''Ship report'']" by code_simp
  have 5: "map_sum id (\<lambda>v. map title (rows v)) (render clock1 ''all'' ''REPORT'' store2) = Inr [''Ship report'']" by code_simp
  have 6: "map_sum id (\<lambda>v. map title (rows v)) (render clock1 ''completed'' ''ship'' store2) = Inr []" by code_simp
  show ?thesis
    using 0 1 2 3 4 5 6 render_search_stays_in_filter[of "''REPORT''" clock1 "''all''" store2]
    by blast
qed

subsection \<open>C10: updates are not validated\<close>





subsection \<open>C5: the completion rate\<close>

text \<open>Rounding to a double: the exponent, the bounds and the error of \<open>to_double\<close>.\<close>

lemma binade_le:
  assumes "0 < x"
  shows "2 powi (binade x) \<le> x"
proof -
  obtain p q where pq: "quotient_of x = (p, q)" by (cases "quotient_of x")
  have q: "0 < q" using quotient_of_denom_pos[OF pq] .
  have x: "x = of_int p / of_int q" using quotient_of_div[OF pq] .
  have p: "0 < p" using assms q unfolding x by (simp add: zero_less_divide_iff)
  let ?d = "bitlen p - bitlen q"
  show ?thesis
  proof (cases "2 powi ?d \<le> x")
    case True
    then show ?thesis by (simp add: binade_def pq Let_def)
  next
    case False
    then have b: "binade x = ?d - 1" by (simp add: binade_def pq Let_def)
    have bp: "1 \<le> bitlen p" using p by (simp add: bitlen_alt_def)
    have bq: "1 \<le> bitlen q" using q by (simp add: bitlen_alt_def)
    have lo: "(2::int) ^ nat (bitlen p - 1) \<le> p" using bitlen_bounds[OF p] by simp
    have hi: "q < 2 ^ nat (bitlen q)" using bitlen_bounds[OF q] by simp
    have lo': "(2::rat) powi (bitlen p - 1) \<le> of_int p"
    proof -
      have "(of_int ((2::int) ^ nat (bitlen p - 1)) :: rat) \<le> of_int p" using lo by (simp only: of_int_le_iff)
      then show ?thesis using bp by (simp add: power_int_def)
    qed
    have hi': "(of_int q :: rat) \<le> 2 powi (bitlen q)"
    proof -
      have "(of_int q :: rat) \<le> of_int ((2::int) ^ nat (bitlen q))" using hi by (simp only: of_int_le_iff less_imp_le)
      then show ?thesis using bq by (simp add: power_int_def)
    qed
    have "(2::rat) powi (?d - 1) = 2 powi (bitlen p - 1) / 2 powi (bitlen q)"
      using power_int_diff[of "2::rat" "bitlen p - 1" "bitlen q"] by (simp add: algebra_simps)
    also have "\<dots> \<le> of_int p / of_int q"
      by (rule frac_le) (use lo' hi' q p in auto)
    finally have "(2::rat) powi (?d - 1) \<le> x" using x by simp
    then show ?thesis unfolding b .
  qed
qed

lemma roundTiesToEven_near: "\<bar>of_int (roundTiesToEven y) - y\<bar> \<le> 1 / 2"
  unfolding roundTiesToEven_def Let_def by (auto simp: abs_if) linarith+

lemma roundTiesToEven_le: "y \<le> of_int n \<Longrightarrow> roundTiesToEven y \<le> n"
proof -
  assume a: "y \<le> of_int n"
  have f: "\<lfloor>y\<rfloor> \<le> n" using a by (simp add: floor_le_iff)
  show ?thesis
  proof (cases "y = of_int \<lfloor>y\<rfloor>")
    case True
    then have "roundTiesToEven y = \<lfloor>y\<rfloor>" by (simp add: roundTiesToEven_def Let_def)
    then show ?thesis using f by simp
  next
    case False
    then have "of_int \<lfloor>y\<rfloor> < y" by (metis of_int_floor_le order_less_le)
    then have "of_int \<lfloor>y\<rfloor> < (of_int n :: rat)" using a by linarith
    then have "\<lfloor>y\<rfloor> < n" by (simp only: of_int_less_iff)
    moreover have "roundTiesToEven y \<le> \<lfloor>y\<rfloor> + 1" by (simp add: roundTiesToEven_def Let_def)
    ultimately show ?thesis by linarith
  qed
qed

lemma roundTiesToEven_nonneg: "0 \<le> y \<Longrightarrow> 0 \<le> roundTiesToEven y"
  by (simp add: roundTiesToEven_def Let_def)

lemma binade_less:
  assumes "0 < x" "x < 2 powi k"
  shows "binade x < k"
proof (rule ccontr)
  assume "\<not> binade x < k"
  then have "(2::rat) powi k \<le> 2 powi (binade x)"
    by (intro power_int_increasing) auto
  with binade_le[OF assms(1)] assms(2) show False by linarith
qed

lemma to_double_pos:
  "0 < x \<Longrightarrow>
   to_double x = of_int (roundTiesToEven (x / 2 powi (binade x - 52))) * 2 powi (binade x - 52)"
  by (simp add: to_double_def Let_def)

lemma to_double_nonneg:
  assumes "0 \<le> x"
  shows "0 \<le> to_double x"
proof (cases "x = 0")
  case True
  then show ?thesis by (simp add: to_double_def)
next
  case False
  then have x: "0 < x" using assms by simp
  have "0 \<le> roundTiesToEven (x / 2 powi (binade x - 52))"
    by (rule roundTiesToEven_nonneg) (use x in simp)
  then show ?thesis unfolding to_double_pos[OF x] by simp
qed

lemma to_double_le:
  assumes "0 < x" "x \<le> B" "B = of_int n * 2 powi (binade x - 52)"
  shows "to_double x \<le> B"
proof -
  let ?s = "(2::rat) powi (binade x - 52)"
  have s: "0 < ?s" by simp
  have "x / ?s \<le> B / ?s" using assms(2) s by (simp add: divide_right_mono)
  also have "B / ?s = of_int n" unfolding assms(3) by simp
  finally have "roundTiesToEven (x / ?s) \<le> n" by (rule roundTiesToEven_le)
  then have "(of_int (roundTiesToEven (x / ?s)) :: rat) \<le> of_int n" by (simp only: of_int_le_iff)
  then have "of_int (roundTiesToEven (x / ?s)) * ?s \<le> of_int n * ?s"
    using s by (simp only: mult_le_cancel_right_pos)
  then show ?thesis unfolding to_double_pos[OF assms(1)] assms(3) .
qed

lemma scale_integer:
  assumes "e \<le> 52"
  shows "(1::rat) = of_int (2 ^ nat (52 - e)) * 2 powi (e - 52)"
proof -
  have "(of_int (2 ^ nat (52 - e)) :: rat) = 2 powi (52 - e)"
    using assms by (simp add: power_int_def)
  then have "of_int (2 ^ nat (52 - e)) * (2::rat) powi (e - 52) = 2 powi (52 - e) * 2 powi (e - 52)"
    by simp
  also have "\<dots> = 2 powi ((52 - e) + (e - 52))"
    by (rule power_int_add[symmetric]) simp
  finally show ?thesis by simp
qed

lemma to_double_le_1:
  assumes "0 < x" "x \<le> 1"
  shows "to_double x \<le> 1"
proof -
  have "x < 2 powi 1" using assms(2) by simp
  then have e: "binade x < 1" by (rule binade_less[OF assms(1)])
  have "(1::rat) = of_int (2 ^ nat (52 - binade x)) * 2 powi (binade x - 52)"
    by (rule scale_integer) (use e in simp)
  with assms show ?thesis by (rule to_double_le)
qed

lemma to_double_le_100:
  assumes "0 < x" "x \<le> 100"
  shows "to_double x \<le> 100"
proof -
  have "x < 2 powi 7" using assms(2) by simp
  then have e: "binade x < 7" by (rule binade_less[OF assms(1)])
  have "(1::rat) = of_int (2 ^ nat (52 - binade x)) * 2 powi (binade x - 52)"
    by (rule scale_integer) (use e in simp)
  then have "(100::rat) = of_int (100 * 2 ^ nat (52 - binade x)) * 2 powi (binade x - 52)"
    by simp
  with assms show ?thesis by (rule to_double_le)
qed

lemma to_double_error:
  assumes "0 \<le> x"
  shows "\<bar>to_double x - x\<bar> \<le> x / 2 ^ 53"
proof (cases "x = 0")
  case True
  then show ?thesis by (simp add: to_double_def)
next
  case False
  then have x: "0 < x" using assms by simp
  let ?s = "(2::rat) powi (binade x - 52)"
  let ?m = "x / ?s"
  have s: "0 < ?s" by simp
  have "to_double x - x = (of_int (roundTiesToEven ?m) - ?m) * ?s"
    unfolding to_double_pos[OF x] using s by (simp add: algebra_simps)
  then have "\<bar>to_double x - x\<bar> = \<bar>of_int (roundTiesToEven ?m) - ?m\<bar> * ?s"
    using s by (simp add: abs_mult)
  also have "\<dots> \<le> (1 / 2) * ?s"
    using roundTiesToEven_near[of ?m] s by (simp only: mult_le_cancel_right_pos)
  also have "(1 / 2) * ?s = 2 powi (binade x) / 2 ^ 53"
    using power_int_diff[of "2::rat" "binade x" 52] by simp
  also have "\<dots> \<le> x / 2 ^ 53"
    using binade_le[OF x] by (simp add: divide_right_mono)
  finally show ?thesis .
qed

lemma product_bounds:
  assumes "c \<le> t" "0 < t"
  shows "0 \<le> to_double (to_double (of_nat c / of_nat t) * 100)"
    and "to_double (to_double (of_nat c / of_nat t) * 100) \<le> 100"
    and "\<bar>to_double (to_double (of_nat c / of_nat t) * 100) - 100 * of_nat c / of_nat t\<bar>
           \<le> 200 / 2 ^ 53"
proof -
  let ?x = "of_nat c / of_nat t :: rat"
  let ?y = "to_double ?x"
  let ?z = "to_double (?y * 100)"
  have x0: "0 \<le> ?x" by simp
  have x1: "?x \<le> 1" using assms by simp
  have y0: "0 \<le> ?y" using x0 by (rule to_double_nonneg)
  have y1: "?y \<le> 1"
  proof (cases "?x = 0")
    case True
    then show ?thesis by (simp add: to_double_def)
  next
    case False
    then have "0 < ?x" using x0 by linarith
    then show ?thesis using x1 by (rule to_double_le_1)
  qed
  have w0: "0 \<le> ?y * 100" using y0 by simp
  have w1: "?y * 100 \<le> 100" using y1 by simp
  show z0: "0 \<le> ?z" using w0 by (rule to_double_nonneg)
  show "?z \<le> 100"
  proof (cases "?y * 100 = 0")
    case True
    then show ?thesis by (simp add: to_double_def)
  next
    case False
    then have "0 < ?y * 100" using w0 by linarith
    then show ?thesis using w1 by (rule to_double_le_100)
  qed
  have e1: "\<bar>?y - ?x\<bar> \<le> 1 / 2 ^ 53"
  proof -
    have "\<bar>?y - ?x\<bar> \<le> ?x / 2 ^ 53" using x0 by (rule to_double_error)
    also have "\<dots> \<le> 1 / 2 ^ 53" using x1 by (simp add: divide_right_mono)
    finally show ?thesis .
  qed
  have e2: "\<bar>?z - ?y * 100\<bar> \<le> 100 / 2 ^ 53"
  proof -
    have "\<bar>?z - ?y * 100\<bar> \<le> (?y * 100) / 2 ^ 53" using w0 by (rule to_double_error)
    also have "\<dots> \<le> 100 / 2 ^ 53" using w1 by (simp add: divide_right_mono)
    finally show ?thesis .
  qed
  have "?z - 100 * of_nat c / of_nat t = (?z - ?y * 100) + 100 * (?y - ?x)"
    by (simp add: algebra_simps)
  then have "\<bar>?z - 100 * of_nat c / of_nat t\<bar> = \<bar>(?z - ?y * 100) + 100 * (?y - ?x)\<bar>"
    by (rule arg_cong)
  also have "\<dots> \<le> \<bar>?z - ?y * 100\<bar> + \<bar>100 * (?y - ?x)\<bar>"
    by (rule abs_triangle_ineq)
  also have "\<bar>100 * (?y - ?x)\<bar> = 100 * \<bar>?y - ?x\<bar>"
    by (simp only: abs_mult abs_numeral)
  also have "\<bar>?z - ?y * 100\<bar> + 100 * \<bar>?y - ?x\<bar> \<le> 100 / 2 ^ 53 + 100 * (1 / 2 ^ 53)"
    by (intro add_mono mult_left_mono) (use e1 e2 in simp_all)
  finally show "\<bar>?z - 100 * of_nat c / of_nat t\<bar> \<le> 200 / 2 ^ 53" by simp
qed

lemma completionRate_of_range:
  assumes "c \<le> t"
  shows "0 \<le> completionRate_of c t \<and> completionRate_of c t \<le> 100"
proof (cases "0 < t")
  case False
  then show ?thesis by (simp add: completionRate_of_def)
next
  case True
  let ?z = "to_double (to_double (of_nat c / of_nat t) * 100)"
  have z: "0 \<le> ?z" "?z \<le> 100" using product_bounds[OF assms True] by blast+
  have "0 \<le> \<lfloor>?z + 1 / 2\<rfloor>" using z(1) by (simp add: le_floor_iff)
  moreover have "\<lfloor>?z + 1 / 2\<rfloor> \<le> 100"
  proof -
    have "?z + 1 / 2 < of_int 101" using z(2) by simp
    then have "\<lfloor>?z + 1 / 2\<rfloor> < 101" by (simp only: floor_less_iff)
    then show ?thesis by simp
  qed
  ultimately show ?thesis using True by (simp add: completionRate_of_def Math_round_def)
qed

lemma completionRate_of_near:
  assumes "c \<le> t" "0 < t" "t < 2 ^ 32"
  shows "exact_rate c t - 1 \<le> completionRate_of c t \<and> completionRate_of c t \<le> exact_rate c t"
    and "\<not> 2 * int t dvd 200 * int c + int t \<Longrightarrow> completionRate_of c t = exact_rate c t"
proof -
  let ?n = "exact_rate c t"
  let ?T = "of_nat t :: rat"
  let ?r = "(200 * int c + int t) mod (2 * int t)"
  define z where "z = to_double (to_double (of_nat c / of_nat t) * 100)"
  define p where "p = (100 * of_nat c / of_nat t :: rat)"
  define d where "d = (200 / 2 ^ 53 :: rat)"
  define h where "h = 1 / (2 * ?T)"
  define q where "q = (of_int ?r :: rat) / (2 * ?T)"
  define m where "m = (of_int ?n :: rat)"
  have T: "0 < ?T" using assms(2) by simp
  have rate: "completionRate_of c t = \<lfloor>z + 1 / 2\<rfloor>"
    using assms(2) by (simp add: completionRate_of_def Math_round_def z_def)
  have err: "\<bar>z - p\<bar> \<le> d"
    unfolding z_def p_def d_def using product_bounds(3)[OF assms(1,2)] .
  have "?T < 2 ^ 32"
  proof -
    have "(of_nat t :: rat) < of_nat (2 ^ 32)" using assms(3) by (simp only: of_nat_less_iff)
    then show ?thesis by simp
  qed
  then have "2 * ?T * 200 < 2 ^ 53" by simp
  then have small: "d < h"
    unfolding d_def h_def using T by (simp add: field_simps)
  have h1: "h \<le> 1" unfolding h_def using assms(2) by simp
  have dm: "200 * int c + int t = 2 * int t * ?n + ?r"
    by (simp add: exact_rate_def)
  have r0: "0 \<le> ?r" and r1: "?r < 2 * int t" using assms(2) by simp_all
  have "(of_int (200 * int c + int t) :: rat) = of_int (2 * int t * ?n + ?r)"
    using dm by simp
  then have "200 * of_nat c + ?T = 2 * ?T * of_int ?n + of_int ?r" by simp
  then have split: "p + 1 / 2 = m + q"
    unfolding p_def m_def q_def using T by (simp add: field_simps)
  have q0: "0 \<le> q" unfolding q_def using r0 T by simp
  have q1: "q \<le> 1 - h"
  proof -
    have "?r \<le> 2 * int t - 1" using r1 by simp
    then have "(of_int ?r :: rat) \<le> of_int (2 * int t - 1)" by (simp only: of_int_le_iff)
    then have "(of_int ?r :: rat) \<le> 2 * ?T - 1" by simp
    then have "of_int ?r / (2 * ?T) \<le> (2 * ?T - 1) / (2 * ?T)"
      using T by (simp add: divide_right_mono)
    also have "\<dots> = 1 - 1 / (2 * ?T)" using T by (simp add: field_simps)
    finally show ?thesis unfolding q_def h_def .
  qed
  have "m - 1 \<le> z + 1 / 2" using err small split q0 h1 unfolding abs_le_iff by linarith
  then have lo: "of_int (?n - 1) \<le> z + 1 / 2" unfolding m_def by simp
  have "z + 1 / 2 < m + 1" using err small split q1 unfolding abs_le_iff by linarith
  then have hi: "z + 1 / 2 < of_int (?n + 1)" unfolding m_def by simp
  have f1: "?n - 1 \<le> \<lfloor>z + 1 / 2\<rfloor>" using lo by (simp only: le_floor_iff)
  have f2: "\<lfloor>z + 1 / 2\<rfloor> < ?n + 1" using hi by (simp only: floor_less_iff)
  show "exact_rate c t - 1 \<le> completionRate_of c t \<and> completionRate_of c t \<le> exact_rate c t"
    unfolding rate using f1 f2 by linarith
  assume "\<not> 2 * int t dvd 200 * int c + int t"
  then have "?r \<noteq> 0" by (simp add: dvd_eq_mod_eq_0)
  then have "1 \<le> ?r" using r0 by linarith
  then have "(of_int 1 :: rat) \<le> of_int ?r" by (simp only: of_int_le_iff)
  then have "1 / (2 * ?T) \<le> of_int ?r / (2 * ?T)" using T by (simp add: divide_right_mono)
  then have "h \<le> q" unfolding h_def q_def .
  then have "m \<le> z + 1 / 2"
    using err small split unfolding abs_le_iff by linarith
  then have "of_int ?n \<le> z + 1 / 2" unfolding m_def .
  then have "?n \<le> \<lfloor>z + 1 / 2\<rfloor>" by (simp only: le_floor_iff)
  with f2 show "completionRate_of c t = exact_rate c t"
    unfolding rate by linarith
qed

lemma getStatistics_rate:
  "completionRate (getStatistics clk st) =
     completionRate_of (completedCount (getStatistics clk st)) (total (getStatistics clk st)) \<and>
   completedCount (getStatistics clk st) \<le> total (getStatistics clk st)"
  by (simp add: getStatistics_def Let_def)

text \<open>
  Claim C5, as amended. The completion rate is an integer between 0 and 100, and 0 when
  there is no task. With tasks it is \<^verbatim>\<open>Math.round\<close> of the double
  \<^verbatim>\<open>(completed / total) * 100\<close>. For fewer than \<open>2\<^sup>3\<^sup>2\<close> tasks (the bound of an array's
  length) that is the exactly rounded percentage \<open>\<lfloor>100 c / t + 1/2\<rfloor>\<close> or one less, and it
  is the exactly rounded percentage whenever the percentage is not exactly halfway
  between two integers.
\<close>

theorem completionRate_range_and_rounding:
  "0 \<le> completionRate (getStatistics clk st) \<and>
   completionRate (getStatistics clk st) \<le> 100 \<and>
   (total (getStatistics clk st) = 0 \<longrightarrow> completionRate (getStatistics clk st) = 0) \<and>
   (0 < total (getStatistics clk st) \<longrightarrow>
      completionRate (getStatistics clk st) =
        Math_round (to_double (to_double (of_nat (completedCount (getStatistics clk st)) /
                                          of_nat (total (getStatistics clk st))) * 100))) \<and>
   (0 < total (getStatistics clk st) \<and> total (getStatistics clk st) < 2 ^ 32 \<longrightarrow>
      exact_rate (completedCount (getStatistics clk st)) (total (getStatistics clk st)) - 1
        \<le> completionRate (getStatistics clk st) \<and>
      completionRate (getStatistics clk st)
        \<le> exact_rate (completedCount (getStatistics clk st)) (total (getStatistics clk st)) \<and>
      (\<not> 2 * int (total (getStatistics clk st))
            dvd 200 * int (completedCount (getStatistics clk st)) + int (total (getStatistics clk st)) \<longrightarrow>
         completionRate (getStatistics clk st) =
           exact_rate (completedCount (getStatistics clk st)) (total (getStatistics clk st))))"
proof -
  define c where "c = completedCount (getStatistics clk st)"
  define t where "t = total (getStatistics clk st)"
  have r: "completionRate (getStatistics clk st) = completionRate_of c t" and le: "c \<le> t"
    unfolding c_def t_def using getStatistics_rate by blast+
  have 1: "0 \<le> completionRate_of c t \<and> completionRate_of c t \<le> 100"
    using le by (rule completionRate_of_range)
  have 2: "t = 0 \<longrightarrow> completionRate_of c t = 0" by (simp add: completionRate_of_def)
  have 3: "0 < t \<longrightarrow> completionRate_of c t = Math_round (to_double (to_double (of_nat c / of_nat t) * 100))"
    by (simp add: completionRate_of_def)
  have 4: "0 < t \<and> t < 2 ^ 32 \<longrightarrow>
      exact_rate c t - 1 \<le> completionRate_of c t \<and> completionRate_of c t \<le> exact_rate c t \<and>
      (\<not> 2 * int t dvd 200 * int c + int t \<longrightarrow> completionRate_of c t = exact_rate c t)"
    using completionRate_of_near[OF le] by blast
  show ?thesis
    unfolding r c_def[symmetric] t_def[symmetric] using 1 2 3 4 by blast
qed

text \<open>
  One task of two completed: the percentage 50 is no tie and the rate is 50. No task: the
  rate is 0.
\<close>

theorem completionRate_witness:
  "total (getStatistics clock1 store2_done) = 2 \<and>
   completedCount (getStatistics clock1 store2_done) = 1 \<and>
   \<not> 2 * int 2 dvd 200 * int 1 + int 2 \<and>
   exact_rate 1 2 = 50 \<and>
   completionRate (getStatistics clock1 store2_done) = 50 \<and>
   total (getStatistics clock0 empty_storage) = 0 \<and>
   completionRate (getStatistics clock0 empty_storage) = 0"
proof -
  have t: "total (getStatistics clock1 store2_done) = 2" by code_simp
  have c: "completedCount (getStatistics clock1 store2_done) = 1" by code_simp
  have n: "\<not> 2 * int 2 dvd 200 * int 1 + int 2" by simp
  have e: "exact_rate 1 2 = 50" by code_simp
  have z: "total (getStatistics clock0 empty_storage) = 0" by code_simp
  have "completionRate (getStatistics clock1 store2_done) = exact_rate 1 2"
    using completionRate_range_and_rounding[of clock1 store2_done] n unfolding t c by simp
  moreover have "completionRate (getStatistics clock0 empty_storage) = 0"
    using completionRate_range_and_rounding[of clock0 empty_storage] z by blast
  ultimately show ?thesis using t c n e z by simp
qed

text \<open>
  Claim C5 as stated fails: with 23 of 40 tasks completed the percentage is 57.5, which
  rounds to 58, and the code returns 57: the double \<^verbatim>\<open>(23 / 40) * 100\<close> is
  57.49999999999999.
\<close>

theorem completionRate_counterexample:
  "total (getStatistics clock0 store40) = 40 \<and>
   completedCount (getStatistics clock0 store40) = 23 \<and>
   completionRate (getStatistics clock0 store40) = 57 \<and>
   Math_round (of_nat 23 / of_nat 40 * 100) = 58 \<and>
   exact_rate 23 40 = 58"
  by code_simp

end
